theory Spec2Isabelle
  imports Main "HOL-Library.Word" "HOL-Library.Sublist"
begin

section \<open>Strings of the host language\<close>

text \<open>
  The script \<^verbatim>\<open>enen_Oxford_longman2.js\<close> runs in a browser. Its strings are sequences of
  16-bit code units; \<^verbatim>\<open>length\<close>, \<^verbatim>\<open>substring\<close> and \<^verbatim>\<open>trim\<close> count and inspect code
  units, and the arrow and the dash of the output lie outside ASCII. ASCII literals of the
  source are written through \<open>str\<close>.
\<close>

type_synonym jsstring = "16 word list"

definition str :: "string \<Rightarrow> jsstring" where
  "str s = map of_char s"

text \<open>
  White space and line terminators of the language: what \<^verbatim>\<open>String.prototype.trim\<close> strips
  and what the class \<^verbatim>\<open>\s\<close> of a regular expression matches.
\<close>

definition isWhiteSpace :: "16 word \<Rightarrow> bool" where
  "isWhiteSpace c \<longleftrightarrow>
     c = 0x09 \<or> c = 0x0A \<or> c = 0x0B \<or> c = 0x0C \<or> c = 0x0D \<or> c = 0x20 \<or> c = 0xA0 \<or>
     c = 0x1680 \<or> (0x2000 \<le> c \<and> c \<le> 0x200A) \<or> c = 0x2028 \<or> c = 0x2029 \<or>
     c = 0x202F \<or> c = 0x205F \<or> c = 0x3000 \<or> c = 0xFEFF"

definition trim :: "jsstring \<Rightarrow> jsstring" where
  "trim s = rev (dropWhile isWhiteSpace (rev (dropWhile isWhiteSpace s)))"

text \<open>\<^verbatim>\<open>s.replace(/\s+/g, ' ')\<close>: every maximal run of white space becomes one space.\<close>

function collapse :: "jsstring \<Rightarrow> jsstring" where
  "collapse [] = []"
| "collapse (c # cs) =
     (if isWhiteSpace c then 0x20 # collapse (dropWhile isWhiteSpace cs)
      else c # collapse cs)"
  by pat_completeness auto
termination
  by (relation "measure length") (auto simp: length_dropWhile_le less_Suc_eq_le)

text \<open>\<^verbatim>\<open>Array.prototype.join\<close> on an array of strings.\<close>

fun join :: "jsstring \<Rightarrow> jsstring list \<Rightarrow> jsstring" where
  "join sep [] = []"
| "join sep [x] = x"
| "join sep (x # y # ys) = x @ sep @ join sep (y # ys)"

section \<open>Exceptions\<close>

datatype error =
    TypeError
  | URIError
  | NetworkError
  | BodyError
  | ParserError
  | Error string

definition andThen :: "error + 'a \<Rightarrow> ('a \<Rightarrow> error + 'b) \<Rightarrow> error + 'b" where
  "andThen m f = (case m of Inl e \<Rightarrow> Inl e | Inr x \<Rightarrow> f x)"

text \<open>A callback run over an array with \<^verbatim>\<open>forEach\<close>; an exception ends the loop.\<close>

fun forEach :: "('a \<Rightarrow> 's \<Rightarrow> error + 's) \<Rightarrow> 'a list \<Rightarrow> 's \<Rightarrow> error + 's" where
  "forEach f [] s = Inr s"
| "forEach f (x # xs) s = (case f x s of Inl e \<Rightarrow> Inl e | Inr s' \<Rightarrow> forEach f xs s')"

fun sequence :: "(error + 'a) list \<Rightarrow> error + 'a list" where
  "sequence [] = Inr []"
| "sequence (m # ms) =
     (case m of Inl e \<Rightarrow> Inl e
      | Inr x \<Rightarrow> (case sequence ms of Inl e \<Rightarrow> Inl e | Inr xs \<Rightarrow> Inr (x # xs)))"

section \<open>\<^verbatim>\<open>encodeURIComponent\<close>\<close>

text \<open>
  The built-in keeps the unreserved characters, writes every other code point as the
  percent-escaped octets of its UTF-8 encoding, and throws \<^verbatim>\<open>URIError\<close> on a surrogate
  code unit that is not part of a pair.
\<close>

definition uriUnreserved :: "16 word \<Rightarrow> bool" where
  "uriUnreserved c \<longleftrightarrow>
     (0x41 \<le> c \<and> c \<le> 0x5A) \<or> (0x61 \<le> c \<and> c \<le> 0x7A) \<or> (0x30 \<le> c \<and> c \<le> 0x39) \<or>
     c = 0x2D \<or> c = 0x5F \<or> c = 0x2E \<or> c = 0x21 \<or> c = 0x7E \<or> c = 0x2A \<or>
     c = 0x27 \<or> c = 0x28 \<or> c = 0x29"

definition isLeadSurrogate :: "16 word \<Rightarrow> bool" where
  "isLeadSurrogate c \<longleftrightarrow> 0xD800 \<le> c \<and> c \<le> 0xDBFF"

definition isTrailSurrogate :: "16 word \<Rightarrow> bool" where
  "isTrailSurrogate c \<longleftrightarrow> 0xDC00 \<le> c \<and> c \<le> 0xDFFF"

definition pairCodePoint :: "16 word \<Rightarrow> 16 word \<Rightarrow> nat" where
  "pairCodePoint c d = (unat c - 0xD800) * 0x400 + (unat d - 0xDC00) + 0x10000"

definition utf8 :: "nat \<Rightarrow> nat list" where
  "utf8 cp =
     (if cp < 0x80 then [cp]
      else if cp < 0x800 then [0xC0 + cp div 0x40, 0x80 + cp mod 0x40]
      else if cp < 0x10000 then
        [0xE0 + cp div 0x1000, 0x80 + (cp div 0x40) mod 0x40, 0x80 + cp mod 0x40]
      else
        [0xF0 + cp div 0x40000, 0x80 + (cp div 0x1000) mod 0x40,
         0x80 + (cp div 0x40) mod 0x40, 0x80 + cp mod 0x40])"

definition hexDigit :: "nat \<Rightarrow> 16 word" where
  "hexDigit d = (if d < 10 then 0x30 + of_nat d else 0x41 + of_nat (d - 10))"

definition percent :: "nat \<Rightarrow> jsstring" where
  "percent b = [0x25, hexDigit (b div 16), hexDigit (b mod 16)]"

definition escape :: "nat \<Rightarrow> jsstring" where
  "escape cp = concat (map percent (utf8 cp))"

fun encodeURIComponent :: "jsstring \<Rightarrow> error + jsstring" where
  "encodeURIComponent [] = Inr []"
| "encodeURIComponent (c # cs) =
     (if uriUnreserved c then
        (case encodeURIComponent cs of Inl e \<Rightarrow> Inl e | Inr r \<Rightarrow> Inr (c # r))
      else if isTrailSurrogate c then Inl URIError
      else if isLeadSurrogate c then
        (case cs of
           [] \<Rightarrow> Inl URIError
         | d # ds \<Rightarrow>
             if isTrailSurrogate d then
               (case encodeURIComponent ds of
                  Inl e \<Rightarrow> Inl e
                | Inr r \<Rightarrow> Inr (escape (pairCodePoint c d) @ r))
             else Inl URIError)
      else
        (case encodeURIComponent cs of
           Inl e \<Rightarrow> Inl e
         | Inr r \<Rightarrow> Inr (escape (unat c) @ r)))"

section \<open>Values\<close>

text \<open>
  What \<^verbatim>\<open>response.json()\<close> can deliver. A number is kept as its rendering by
  \<^verbatim>\<open>ToString\<close>, which is all the script observes of it: the rendering is concatenated,
  and the number is falsy exactly when it renders as \<^verbatim>\<open>0\<close> or \<^verbatim>\<open>NaN\<close>. An object is the
  association list of its own properties. \<^verbatim>\<open>undefined\<close> is \<open>None\<close>.
\<close>

datatype json =
    JNull
  | JBool bool
  | JNum jsstring
  | JStr jsstring
  | JArr "json list"
  | JObj "(jsstring \<times> json) list"

type_synonym jsvalue = "json option"

fun truthy :: "jsvalue \<Rightarrow> bool" where
  "truthy None = False"
| "truthy (Some JNull) = False"
| "truthy (Some (JBool b)) = b"
| "truthy (Some (JNum n)) = (n \<noteq> str ''0'' \<and> n \<noteq> str ''NaN'')"
| "truthy (Some (JStr s)) = (s \<noteq> [])"
| "truthy (Some (JArr xs)) = True"
| "truthy (Some (JObj kvs)) = True"

fun typeof :: "jsvalue \<Rightarrow> string" where
  "typeof None = ''undefined''"
| "typeof (Some (JBool b)) = ''boolean''"
| "typeof (Some (JNum n)) = ''number''"
| "typeof (Some (JStr s)) = ''string''"
| "typeof (Some v) = ''object''"

text \<open>
  Reading a data property (\<^verbatim>\<open>tuc\<close>, \<^verbatim>\<open>examples\<close>, \<^verbatim>\<open>meanings\<close>, \<^verbatim>\<open>phrase\<close>, \<^verbatim>\<open>text\<close>,
  \<^verbatim>\<open>first\<close>, \<^verbatim>\<open>second\<close>): none of these names is defined on a built-in prototype, so only
  an object can have one. Reading from \<^verbatim>\<open>undefined\<close> or \<^verbatim>\<open>null\<close> throws.
\<close>

fun get :: "jsvalue \<Rightarrow> jsstring \<Rightarrow> error + jsvalue" where
  "get None k = Inl TypeError"
| "get (Some JNull) k = Inl TypeError"
| "get (Some (JObj kvs)) k = Inr (map_of kvs k)"
| "get (Some v) k = Inr None"

text \<open>
  Whether \<^verbatim>\<open>v.length\<close> is truthy, for a truthy \<open>v\<close>: arrays and strings have their length,
  an object only an own property of that name.
\<close>

fun lengthTruthy :: "jsvalue \<Rightarrow> bool" where
  "lengthTruthy (Some (JArr xs)) = (xs \<noteq> [])"
| "lengthTruthy (Some (JStr s)) = (s \<noteq> [])"
| "lengthTruthy (Some (JObj kvs)) = truthy (map_of kvs (str ''length''))"
| "lengthTruthy v = False"

text \<open>
  \<^verbatim>\<open>v.forEach(f)\<close>: only an array has a callable \<^verbatim>\<open>forEach\<close>; on any other value the
  property is \<^verbatim>\<open>undefined\<close> or a value that cannot be called, and the call throws.
\<close>

fun callForEach :: "jsvalue \<Rightarrow> (json \<Rightarrow> 's \<Rightarrow> error + 's) \<Rightarrow> 's \<Rightarrow> error + 's" where
  "callForEach (Some (JArr xs)) f s = forEach f xs s"
| "callForEach v f s = Inl TypeError"

text \<open>
  \<^verbatim>\<open>ToString\<close>. An array is its elements joined by commas, \<^verbatim>\<open>null\<close> elements as the empty
  string. An object is \<^verbatim>\<open>[object Object]\<close>, unless an own property hides
  \<^verbatim>\<open>Object.prototype.toString\<close>: that property holds data, cannot be called, and the
  conversion throws.
\<close>

fun toString :: "json \<Rightarrow> error + jsstring" where
  "toString JNull = Inr (str ''null'')"
| "toString (JBool b) = Inr (if b then str ''true'' else str ''false'')"
| "toString (JNum n) = Inr n"
| "toString (JStr s) = Inr s"
| "toString (JArr xs) =
     (case sequence (map (\<lambda>x. if x = JNull then Inr [] else toString x) xs) of
        Inl e \<Rightarrow> Inl e
      | Inr ts \<Rightarrow> Inr (join (str '','') ts))"
| "toString (JObj kvs) =
     (if map_of kvs (str ''toString'') \<noteq> None then Inl TypeError
      else Inr (str ''[object Object]''))"

text \<open>\<^verbatim>\<open>xs.join(sep)\<close> on an array of values.\<close>

definition joinValues :: "jsstring \<Rightarrow> json list \<Rightarrow> error + jsstring" where
  "joinValues sep xs =
     (case sequence (map (\<lambda>x. if x = JNull then Inr [] else toString x) xs) of
        Inl e \<Rightarrow> Inl e
      | Inr ts \<Rightarrow> Inr (join sep ts))"

text \<open>\<^verbatim>\<open>s + v\<close> for a string \<open>s\<close>.\<close>

fun concatValue :: "jsstring \<Rightarrow> jsvalue \<Rightarrow> error + jsstring" where
  "concatValue s None = Inr (s @ str ''undefined'')"
| "concatValue s (Some v) = (case toString v of Inl e \<Rightarrow> Inl e | Inr t \<Rightarrow> Inr (s @ t))"

text \<open>
  \<^verbatim>\<open>Array.from(new Set(out))\<close>: the set keeps each value once, in the order of insertion.
\<close>

definition setAdd :: "'a list \<Rightarrow> 'a \<Rightarrow> 'a list" where
  "setAdd s x = (if x \<in> set s then s else s @ [x])"

definition fromSet :: "'a list \<Rightarrow> 'a list" where
  "fromSet out = foldl setAdd [] out"

text \<open>\<^verbatim>\<open>Array.from(new Set(out)).filter(Boolean)\<close> on an array of strings.\<close>

definition cleanup :: "jsstring list \<Rightarrow> jsstring list" where
  "cleanup out = filter (\<lambda>s. s \<noteq> []) (fromSet out)"

text \<open>
  For comparison: the list of first occurrences, by recursion on the list. Each value stays
  where it first stands and its later copies are dropped.
\<close>

fun firstOccurrences :: "'a list \<Rightarrow> 'a list" where
  "firstOccurrences [] = []"
| "firstOccurrences (x # xs) = x # filter (\<lambda>y. y \<noteq> x) (firstOccurrences xs)"

text \<open>The position at which a value first stands in a list (the length, if it does not).\<close>

definition firstIndex :: "'a list \<Rightarrow> 'a \<Rightarrow> nat" where
  "firstIndex xs x = length (takeWhile (\<lambda>y. y \<noteq> x) xs)"

section \<open>The structured lookup\<close>

definition arrow :: jsstring where
  "arrow = [0x2192, 0x20]"

definition dash :: jsstring where
  "dash = [0x2014, 0x20]"

definition examplesHeader :: jsstring where
  "examplesHeader = 0x0A # str ''Examples:''"

text \<open>\<^verbatim>\<open>m => { if (m.text) out.push("\<rightarrow> " + m.text); }\<close>\<close>

definition meaningCallback :: "json \<Rightarrow> jsstring list \<Rightarrow> error + jsstring list" where
  "meaningCallback m out =
     andThen (get (Some m) (str ''text'')) (\<lambda>t.
       if truthy t then andThen (concatValue arrow t) (\<lambda>line. Inr (out @ [line]))
       else Inr out)"

text \<open>The callback of \<^verbatim>\<open>json.tuc.forEach\<close>.\<close>

definition itemCallback :: "json \<Rightarrow> jsstring list \<Rightarrow> error + jsstring list" where
  "itemCallback item out =
     andThen (get (Some item) (str ''meanings'')) (\<lambda>ms.
       if truthy ms \<and> lengthTruthy ms then callForEach ms meaningCallback out
       else
         andThen (get (Some item) (str ''phrase'')) (\<lambda>ph.
           if truthy ph then
             andThen (get ph (str ''text'')) (\<lambda>t.
               if truthy t then andThen (concatValue arrow t) (\<lambda>line. Inr (out @ [line]))
               else Inr out)
           else Inr out))"

text \<open>
  The callback of \<^verbatim>\<open>json.examples.slice(0, 6).forEach\<close>: \<open>exampleLine\<close> is the value of
  \<^verbatim>\<open>s.join(" ")\<close>, which the callback pushes.
\<close>

definition exampleLine :: "json \<Rightarrow> error + jsstring" where
  "exampleLine ex =
     andThen (get (Some ex) (str ''first'')) (\<lambda>f.
       let s = (case f of Some v \<Rightarrow> if truthy f then [v] else [] | None \<Rightarrow> []) in
       andThen (get (Some ex) (str ''second'')) (\<lambda>sec.
         andThen
           (if truthy sec then andThen (concatValue dash sec) (\<lambda>t. Inr (s @ [JStr t]))
            else Inr s) (\<lambda>s.
           joinValues (str '' '') s)))"

definition exampleCallback :: "json \<Rightarrow> jsstring list \<Rightarrow> error + jsstring list" where
  "exampleCallback ex out = andThen (exampleLine ex) (\<lambda>line. Inr (out @ [line]))"

definition tucPart :: "json \<Rightarrow> jsstring list \<Rightarrow> error + jsstring list" where
  "tucPart json out =
     (if truthy (Some json) then
        andThen (get (Some json) (str ''tuc'')) (\<lambda>tuc.
          case tuc of
            Some (JArr items) \<Rightarrow> if items \<noteq> [] then forEach itemCallback items out else Inr out
          | _ \<Rightarrow> Inr out)
      else Inr out)"

definition examplesPart :: "json \<Rightarrow> jsstring list \<Rightarrow> error + jsstring list" where
  "examplesPart json out =
     (if truthy (Some json) then
        andThen (get (Some json) (str ''examples'')) (\<lambda>examples.
          case examples of
            Some (JArr exs) \<Rightarrow>
              if exs \<noteq> [] then forEach exampleCallback (take 6 exs) (out @ [examplesHeader])
              else Inr out
          | _ \<Rightarrow> Inr out)
      else Inr out)"

text \<open>The lines pushed to \<^verbatim>\<open>out\<close> by the handler of the decoded response, before the cleanup.\<close>

definition extractLines :: "json \<Rightarrow> error + jsstring list" where
  "extractLines json = andThen (tucPart json []) (\<lambda>out. examplesPart json out)"

text \<open>The handler \<^verbatim>\<open>json => { ... }\<close> of the decoded response.\<close>

definition jsonHandler :: "json \<Rightarrow> error + jsstring list" where
  "jsonHandler json =
     andThen (extractLines json) (\<lambda>out.
       if out = [] then Inl (Error ''Empty API result, fallback to HTML'')
       else Inr (cleanup out))"

section \<open>The network and the parser\<close>

text \<open>
  A response as the script reads it: the flag \<^verbatim>\<open>ok\<close>, the outcome of \<^verbatim>\<open>json()\<close> and the
  outcome of \<^verbatim>\<open>text()\<close>, \<open>None\<close> where the promise rejects.
\<close>

record response =
  resp_ok :: bool
  resp_json :: "json option"
  resp_text :: "jsstring option"

text \<open>
  A parsed page as the script reads it: for a selector the \<^verbatim>\<open>textContent\<close> of every
  element \<^verbatim>\<open>querySelectorAll\<close> finds, in document order; the \<^verbatim>\<open>content\<close> of the first
  \<^verbatim>\<open>meta\<close> element named \<^verbatim>\<open>description\<close> or \<^verbatim>\<open>og:description\<close>, if there is one; the
  \<^verbatim>\<open>textContent\<close> of the body, if there is a body.
\<close>

record document =
  querySelectorAll :: "jsstring \<Rightarrow> jsstring list"
  metaDescription :: "jsstring option"
  bodyTextContent :: "jsstring option"

text \<open>
  The capabilities of the host. \<open>fetch\<close> sees the requests issued before and the address,
  and answers \<open>None\<close> where its promise rejects; \<open>parseFromString\<close> answers \<open>None\<close> where
  building or running the parser throws.
\<close>

record env =
  fetch :: "jsstring list \<Rightarrow> jsstring \<Rightarrow> response option"
  parseFromString :: "jsstring \<Rightarrow> document option"

text \<open>Issuing a request appends its address to the log of requests.\<close>

definition doFetch :: "env \<Rightarrow> jsstring \<Rightarrow> jsstring list \<Rightarrow> response option \<times> jsstring list" where
  "doFetch env url log = (fetch env log url, log @ [url])"

definition apiUrl :: "jsstring \<Rightarrow> jsstring" where
  "apiUrl q =
     str ''https://glosbe.com/gapi/translate?from=lo&dest=vi&format=json&phrase='' @ q
       @ str ''&pretty=true''"

definition pageUrl :: "jsstring \<Rightarrow> jsstring" where
  "pageUrl q = str ''https://glosbe.com/lo/vi/'' @ q"

definition apiStage :: "env \<Rightarrow> jsstring \<Rightarrow> jsstring list \<Rightarrow> (error + jsstring list) \<times> jsstring list" where
  "apiStage env url log =
     (case doFetch env url log of
        (None, log') \<Rightarrow> (Inl NetworkError, log')
      | (Some response, log') \<Rightarrow>
          (if \<not> resp_ok response then Inl (Error ''API not OK'')
           else case resp_json response of
                  None \<Rightarrow> Inl (Error ''Not JSON'')
                | Some json \<Rightarrow> jsonHandler json,
           log'))"

section \<open>The scrape of the page\<close>

definition meaningSelectors :: "jsstring list" where
  "meaningSelectors =
     [str ''.meaning'', str ''.translation .text'', str ''.translation'',
      str ''.phrase .translation'', str ''.tu-meaning'',
      str ''.translation-block .translation'']"

definition exampleSelectors :: "jsstring list" where
  "exampleSelectors =
     [str ''.example .text'', str ''.examples .example'', str ''.example'',
      str ''.example-sentence'']"

text \<open>The two loops over the selectors: the trimmed, non-empty text of every match.\<close>

definition pushText :: "jsstring list \<Rightarrow> jsstring \<Rightarrow> jsstring list" where
  "pushText acc e = (let txt = trim e in if txt \<noteq> [] then acc @ [txt] else acc)"

definition collect :: "document \<Rightarrow> jsstring list \<Rightarrow> jsstring list" where
  "collect doc sels = foldl (\<lambda>acc sel. foldl pushText acc (querySelectorAll doc sel)) [] sels"

definition withMeta :: "document \<Rightarrow> jsstring list \<Rightarrow> jsstring list" where
  "withMeta doc results =
     (if results = [] then
        (case metaDescription doc of
           Some content \<Rightarrow> if content \<noteq> [] then results @ [trim content] else results
         | None \<Rightarrow> results)
      else results)"

definition bodyText :: "document \<Rightarrow> jsstring" where
  "bodyText doc =
     (case bodyTextContent doc of
        Some t \<Rightarrow> if t \<noteq> [] then collapse (trim t) else []
      | None \<Rightarrow> [])"

definition htmlHandler :: "document \<Rightarrow> jsstring list" where
  "htmlHandler doc =
     (let results = collect doc meaningSelectors;
          examples = collect doc exampleSelectors;
          results = withMeta doc results;
          out = (if results \<noteq> [] then take 12 results
                 else if bodyText doc \<noteq> [] then [take 800 (bodyText doc)] else []);
          out = (if examples \<noteq> [] then out @ [examplesHeader] @ take 8 examples else out)
      in cleanup out)"

definition scrapeStage :: "env \<Rightarrow> jsstring \<Rightarrow> jsstring list \<Rightarrow> (error + jsstring list) \<times> jsstring list" where
  "scrapeStage env url log =
     (case doFetch env url log of
        (None, log') \<Rightarrow> (Inl NetworkError, log')
      | (Some resp, log') \<Rightarrow>
          (if \<not> resp_ok resp then Inl (Error ''Page fetch failed'')
           else case resp_text resp of
                  None \<Rightarrow> Inl BodyError
                | Some html \<Rightarrow>
                    (case parseFromString env html of
                       None \<Rightarrow> Inl ParserError
                     | Some doc \<Rightarrow> Inr (htmlHandler doc)),
           log'))"

section \<open>The pipeline and its wrapper\<close>

datatype 'a promise = Fulfilled 'a | Rejected error

definition noWord :: jsstring where
  "noWord = str ''No word provided''"

definition offlineFallback :: jsstring where
  "offlineFallback =
     str ''No definition found (offline fallback). Try Google Translate or check internet connection.''"

text \<open>
  \<open>findWord\<close> either throws before it has a promise to return (\<open>Inl\<close>) or returns a
  promise; with it comes the log of the requests issued.
\<close>

definition fallback :: "env \<Rightarrow> jsstring \<Rightarrow> jsstring list \<Rightarrow> jsstring list promise \<times> jsstring list" where
  "fallback env phrase log =
     (case encodeURIComponent phrase of
        Inl e \<Rightarrow> (Rejected e, log)
      | Inr q \<Rightarrow>
          (case scrapeStage env (pageUrl q) log of
             (Inr out, log') \<Rightarrow> (Fulfilled out, log')
           | (Inl e, log') \<Rightarrow> (Fulfilled [offlineFallback], log')))"

definition findWord :: "env \<Rightarrow> jsvalue \<Rightarrow> (error + jsstring list promise) \<times> jsstring list" where
  "findWord env word =
     (if \<not> truthy word \<or> typeof word \<noteq> ''string'' then (Inr (Fulfilled [noWord]), [])
      else
        case word of
          Some (JStr w) \<Rightarrow>
            let phrase = trim w in
            (case encodeURIComponent phrase of
               Inl e \<Rightarrow> (Inl e, [])
             | Inr q \<Rightarrow>
                 (case apiStage env (apiUrl q) [] of
                    (Inr out, log) \<Rightarrow> (Inr (Fulfilled out), log)
                  | (Inl e, log) \<Rightarrow>
                      (case fallback env phrase log of (p, log') \<Rightarrow> (Inr p, log'))))
        | _ \<Rightarrow> (Inl TypeError, []))"

definition getDefinition :: "env \<Rightarrow> jsvalue \<Rightarrow> jsstring promise \<times> jsstring list" where
  "getDefinition env word =
     (case findWord env word of
        (Inl e, log) \<Rightarrow> (Rejected e, log)
      | (Inr (Fulfilled results), log) \<Rightarrow>
          (Fulfilled
             (if results = [] then str ''No result found''
              else join (str [CHR 0x0A, CHR 0x0A]) results),
           log)
      | (Inr (Rejected e), log) \<Rightarrow> (Fulfilled (str ''Error getting definition''), log))"

text \<open>The last statement of the script: what \<^verbatim>\<open>sendResponse\<close> receives.\<close>

definition main :: "env \<Rightarrow> jsvalue \<Rightarrow> jsstring \<times> jsstring list" where
  "main env selectedText =
     (case getDefinition env selectedText of
        (Fulfilled definition, log) \<Rightarrow> (definition, log)
      | (Rejected e, log) \<Rightarrow> (str ''Error'', log))"

section \<open>The response the script is written for\<close>

text \<open>
  The comments of the source name the fields it reads: an object whose \<^verbatim>\<open>tuc\<close>, if there,
  is an array of objects, each with an array \<^verbatim>\<open>meanings\<close> of objects with a string
  \<^verbatim>\<open>text\<close> or with an object \<^verbatim>\<open>phrase\<close> with a string \<^verbatim>\<open>text\<close>, and whose \<^verbatim>\<open>examples\<close>,
  if there, is an array of objects with strings \<^verbatim>\<open>first\<close> and \<^verbatim>\<open>second\<close>. Every field may
  be missing. On such a response no callback throws (\<open>structured_extracts\<close> below).
\<close>

fun optionalString :: "jsvalue \<Rightarrow> bool" where
  "optionalString None = True"
| "optionalString (Some (JStr s)) = True"
| "optionalString (Some v) = False"

definition isMeaning :: "json \<Rightarrow> bool" where
  "isMeaning m = (case m of JObj kvs \<Rightarrow> optionalString (map_of kvs (str ''text'')) | _ \<Rightarrow> False)"

definition isUnit :: "json \<Rightarrow> bool" where
  "isUnit item =
     (case item of
        JObj kvs \<Rightarrow>
          (case map_of kvs (str ''meanings'') of
             None \<Rightarrow> True
           | Some (JArr ms) \<Rightarrow> list_all isMeaning ms
           | Some v \<Rightarrow> False) \<and>
          (case map_of kvs (str ''phrase'') of
             None \<Rightarrow> True
           | Some (JObj p) \<Rightarrow> optionalString (map_of p (str ''text''))
           | Some v \<Rightarrow> False)
      | _ \<Rightarrow> False)"

definition isExample :: "json \<Rightarrow> bool" where
  "isExample ex =
     (case ex of
        JObj kvs \<Rightarrow>
          optionalString (map_of kvs (str ''first'')) \<and> optionalString (map_of kvs (str ''second''))
      | _ \<Rightarrow> False)"

definition structured :: "json \<Rightarrow> bool" where
  "structured json =
     (case json of
        JObj kvs \<Rightarrow>
          (case map_of kvs (str ''tuc'') of
             None \<Rightarrow> True
           | Some (JArr items) \<Rightarrow> list_all isUnit items
           | Some v \<Rightarrow> False) \<and>
          (case map_of kvs (str ''examples'') of
             None \<Rightarrow> True
           | Some (JArr exs) \<Rightarrow> list_all isExample exs
           | Some v \<Rightarrow> False)
      | _ \<Rightarrow> False)"

section \<open>Sample hosts and responses\<close>

text \<open>A host without a network and without a parser.\<close>

definition offline :: env where
  "offline = \<lparr>fetch = (\<lambda>log url. None), parseFromString = (\<lambda>html. None)\<rparr>"

text \<open>
  A host whose first request is answered with a decoded response and whose later requests
  fail.
\<close>

definition serving :: "json \<Rightarrow> env" where
  "serving j =
     \<lparr>fetch = (\<lambda>log url.
        if log = [] then Some \<lparr>resp_ok = True, resp_json = Some j, resp_text = None\<rparr> else None),
      parseFromString = (\<lambda>html. None)\<rparr>"

text \<open>
  A host whose first request fails and whose later requests are answered with a page that
  parses to the given document.
\<close>

definition scraping :: "document \<Rightarrow> env" where
  "scraping doc =
     \<lparr>fetch = (\<lambda>log url.
        if log = [] then None else Some \<lparr>resp_ok = True, resp_json = None, resp_text = Some []\<rparr>),
      parseFromString = (\<lambda>html. Some doc)\<rparr>"

text \<open>A page on which no selector finds an element, without description, with a body text.\<close>

definition plainPage :: "jsstring \<Rightarrow> document" where
  "plainPage t = \<lparr>querySelectorAll = (\<lambda>sel. []), metaDescription = None, bodyTextContent = Some t\<rparr>"

text \<open>Decoded responses.\<close>

definition meaningResponse :: json where
  "meaningResponse =
     JObj [(str ''tuc'', JArr [JObj [(str ''meanings'', JArr [JObj [(str ''text'', JStr (str ''A''))]])]])]"

definition emptyTextResponse :: json where
  "emptyTextResponse =
     JObj [(str ''tuc'', JArr [JObj [(str ''meanings'', JArr [JObj [(str ''text'', JStr [])]])]])]"

definition duplicateResponse :: json where
  "duplicateResponse =
     JObj [(str ''tuc'',
            JArr [JObj [(str ''meanings'', JArr [JObj [(str ''text'', JStr (str ''A''))]])],
                  JObj [(str ''meanings'', JArr [JObj [(str ''text'', JStr (str ''A''))]])]])]"

definition exampleResponse :: json where
  "exampleResponse =
     JObj [(str ''examples'',
            JArr [JObj [(str ''first'', JStr (str ''cat'')), (str ''second'', JStr (str ''meo''))]])]"

definition malformedResponse :: json where
  "malformedResponse =
     JObj [(str ''examples'',
            JArr [JObj [], JObj [(str ''second'', JStr (str ''meo''))],
                  JObj [(str ''first'', JStr (str ''cat''))]])]"

section \<open>Each value once, in the order of first occurrence\<close>

lemma foldl_setAdd:
  "foldl setAdd acc xs = acc @ filter (\<lambda>y. y \<notin> set acc) (firstOccurrences xs)"
proof (induction xs arbitrary: acc)
  case Nil
  then show ?case by simp
next
  case (Cons x xs)
  show ?case
  proof (cases "x \<in> set acc")
    case True
    then have "filter (\<lambda>y. y \<notin> set acc) (filter (\<lambda>y. y \<noteq> x) (firstOccurrences xs))
        = filter (\<lambda>y. y \<notin> set acc) (firstOccurrences xs)"
      by (auto intro: filter_cong)
    with True Cons.IH [of acc] show ?thesis by (simp add: setAdd_def)
  next
    case False
    have "filter (\<lambda>y. y \<notin> set (acc @ [x])) (firstOccurrences xs)
        = filter (\<lambda>y. y \<notin> set acc) (filter (\<lambda>y. y \<noteq> x) (firstOccurrences xs))"
      by (auto intro: filter_cong)
    with False Cons.IH [of "acc @ [x]"] show ?thesis by (simp add: setAdd_def)
  qed
qed

lemma fromSet_firstOccurrences: "fromSet xs = firstOccurrences xs"
  by (simp add: fromSet_def foldl_setAdd)

lemma set_firstOccurrences [simp]: "set (firstOccurrences xs) = set xs"
  by (induction xs) auto

lemma distinct_firstOccurrences [simp]: "distinct (firstOccurrences xs)"
  by (induction xs) auto

lemma subseq_firstOccurrences: "subseq (firstOccurrences xs) xs"
proof (induction xs)
  case Nil
  then show ?case by simp
next
  case (Cons x xs)
  have "subseq (filter (\<lambda>y. y \<noteq> x) (firstOccurrences xs)) (firstOccurrences xs)"
    by simp
  from this Cons have "subseq (filter (\<lambda>y. y \<noteq> x) (firstOccurrences xs)) xs"
    by (rule subseq_order.trans)
  then show ?case by simp
qed

lemma firstOccurrences_append:
  "firstOccurrences (xs @ ys) = firstOccurrences xs @ filter (\<lambda>y. y \<notin> set xs) (firstOccurrences ys)"
proof (induction xs)
  case Nil
  then show ?case by simp
next
  case (Cons x xs)
  have "filter (\<lambda>y. y \<noteq> x) (filter (\<lambda>y. y \<notin> set xs) (firstOccurrences ys))
      = filter (\<lambda>y. y \<notin> set (x # xs)) (firstOccurrences ys)"
    by (auto intro: filter_cong)
  with Cons show ?case by simp
qed

lemma firstIndex_Cons:
  "firstIndex (x # xs) y = (if y = x then 0 else Suc (firstIndex xs y))"
  by (simp add: firstIndex_def)

lemma sorted_firstOccurrences:
  "sorted_wrt (\<lambda>a b. firstIndex xs a < firstIndex xs b) (firstOccurrences xs)"
proof (induction xs)
  case Nil
  then show ?case by simp
next
  case (Cons x xs)
  have "sorted_wrt (\<lambda>a b. firstIndex xs a < firstIndex xs b) (filter (\<lambda>y. y \<noteq> x) (firstOccurrences xs))"
    using Cons by (rule sorted_wrt_filter)
  then have "sorted_wrt (\<lambda>a b. firstIndex (x # xs) a < firstIndex (x # xs) b)
      (filter (\<lambda>y. y \<noteq> x) (firstOccurrences xs))"
    by (rule sorted_wrt_mono_rel [rotated]) (auto simp: firstIndex_Cons)
  then show ?case by (auto simp: firstIndex_Cons)
qed

lemma cleanup_eq: "cleanup out = filter (\<lambda>s. s \<noteq> []) (firstOccurrences out)"
  by (simp add: cleanup_def fromSet_firstOccurrences)

lemma set_cleanup: "set (cleanup out) = set out - {[]}"
  by (auto simp: cleanup_eq)

lemma distinct_cleanup: "distinct (cleanup out)"
  by (simp add: cleanup_eq)

lemma subseq_cleanup: "subseq (cleanup out) out"
  unfolding cleanup_eq
  by (rule subseq_order.trans [OF subseq_filter_left subseq_firstOccurrences])

lemma sorted_cleanup:
  "sorted_wrt (\<lambda>a b. firstIndex out a < firstIndex out b) (cleanup out)"
  unfolding cleanup_eq by (rule sorted_wrt_filter) (rule sorted_firstOccurrences)

lemma count_list_distinct: "distinct xs \<Longrightarrow> x \<in> set xs \<Longrightarrow> count_list xs x = 1"
  by (induction xs) auto

lemma count_cleanup: "l \<in> set out \<Longrightarrow> l \<noteq> [] \<Longrightarrow> count_list (cleanup out) l = 1"
  by (rule count_list_distinct) (simp_all add: distinct_cleanup set_cleanup)

section \<open>The requests of one invocation\<close>

lemma snd_apiStage: "snd (apiStage env url log) = log @ [url]"
  by (simp add: apiStage_def doFetch_def split: option.splits)

lemma snd_scrapeStage: "snd (scrapeStage env url log) = log @ [url]"
  by (simp add: scrapeStage_def doFetch_def split: option.splits)

lemma apiUrl_neq_pageUrl: "apiUrl q \<noteq> pageUrl q'"
  by (simp add: apiUrl_def pageUrl_def str_def)

lemma findWord_not_string:
  "word = Some (JStr []) \<or> (\<forall>w. word \<noteq> Some (JStr w)) \<Longrightarrow>
   findWord env word = (Inr (Fulfilled [noWord]), [])"
proof (cases word)
  case None
  then show ?thesis by (simp add: findWord_def)
next
  case (Some v)
  assume "word = Some (JStr []) \<or> (\<forall>w. word \<noteq> Some (JStr w))"
  with Some show ?thesis by (cases v) (auto simp: findWord_def)
qed

lemma findWord_throws:
  "w \<noteq> [] \<Longrightarrow> encodeURIComponent (trim w) = Inl e \<Longrightarrow>
   findWord env (Some (JStr w)) = (Inl e, [])"
  by (simp add: findWord_def)

lemma findWord_success:
  "w \<noteq> [] \<Longrightarrow> encodeURIComponent (trim w) = Inr q \<Longrightarrow>
   fst (apiStage env (apiUrl q) []) = Inr out \<Longrightarrow>
   findWord env (Some (JStr w)) = (Inr (Fulfilled out), [apiUrl q])"
  using snd_apiStage [of env "apiUrl q" "[]"]
  by (cases "apiStage env (apiUrl q) []") (simp add: findWord_def)

lemma findWord_fallback:
  "w \<noteq> [] \<Longrightarrow> encodeURIComponent (trim w) = Inr q \<Longrightarrow>
   fst (apiStage env (apiUrl q) []) = Inl e \<Longrightarrow>
   findWord env (Some (JStr w)) =
     (Inr (Fulfilled (case fst (scrapeStage env (pageUrl q) [apiUrl q]) of
                        Inr out \<Rightarrow> out | Inl e' \<Rightarrow> [offlineFallback])),
      [apiUrl q, pageUrl q])"
  using snd_apiStage [of env "apiUrl q" "[]"] snd_scrapeStage [of env "pageUrl q" "[apiUrl q]"]
  by (cases "apiStage env (apiUrl q) []"; cases "scrapeStage env (pageUrl q) [apiUrl q]")
     (auto simp: findWord_def fallback_def split: sum.splits)

section \<open>Sequencing callbacks\<close>

lemma andThen_simps [simp]:
  "andThen (Inl e) f = Inl e"
  "andThen (Inr x) f = f x"
  by (simp_all add: andThen_def)

lemma andThen_Inr_iff: "andThen m f = Inr y \<longleftrightarrow> (\<exists>x. m = Inr x \<and> f x = Inr y)"
  by (cases m) simp_all

lemma andThen_assoc: "andThen (andThen m f) g = andThen m (\<lambda>x. andThen (f x) g)"
  by (cases m) simp_all

lemma forEach_appending:
  assumes "\<And>x a. f x a = andThen (f x []) (\<lambda>ls. Inr (a @ ls))"
  shows "forEach f xs acc = andThen (sequence (map (\<lambda>x. f x []) xs)) (\<lambda>lss. Inr (acc @ concat lss))"
proof (induction xs arbitrary: acc)
  case Nil
  then show ?case by simp
next
  case (Cons x xs)
  show ?case
  proof (cases "f x []")
    case (Inl e)
    then have "f x acc = Inl e" using assms [of x acc] by simp
    with Inl show ?thesis by simp
  next
    case (Inr ls)
    then have "f x acc = Inr (acc @ ls)" using assms [of x acc] by simp
    with Inr Cons.IH [of "acc @ ls"] show ?thesis
      by (cases "sequence (map (\<lambda>x. f x []) xs)") simp_all
  qed
qed

lemma sequence_map_Inr_id: "sequence (map Inr xs) = Inr xs"
  by (induction xs) simp_all

lemma sequence_InrD: "sequence ms = Inr xs \<Longrightarrow> ms = map Inr xs"
proof (induction ms arbitrary: xs)
  case Nil
  then show ?case by simp
next
  case (Cons m ms)
  from Cons.prems obtain y ys where m: "m = Inr y" and ys: "sequence ms = Inr ys" and xs: "xs = y # ys"
    by (auto split: sum.splits)
  from Cons.IH [OF ys] m xs show ?case by simp
qed

lemma sequence_Inr_iff: "sequence ms = Inr xs \<longleftrightarrow> ms = map Inr xs"
  using sequence_InrD sequence_map_Inr_id by blast

lemma sequence_map_Inr:
  "sequence (map g xs) = Inr ys \<Longrightarrow> length ys = length xs \<and> (\<forall>i < length xs. g (xs ! i) = Inr (ys ! i))"
  by (auto simp: sequence_Inr_iff list_eq_iff_nth_eq)

lemma sequence_map_mem:
  assumes "sequence (map g xs) = Inr ys" and "x \<in> set xs"
  shows "\<exists>y. g x = Inr y \<and> y \<in> set ys"
proof -
  from assms(2) obtain i where i: "i < length xs" "xs ! i = x"
    by (auto simp: in_set_conv_nth)
  with sequence_map_Inr [OF assms(1)] show ?thesis
    by (metis nth_mem)
qed

section \<open>The lines a callback appends\<close>

lemma meaningCallback_append:
  "meaningCallback m a = andThen (meaningCallback m []) (\<lambda>ls. Inr (a @ ls))"
  by (cases "get (Some m) (str ''text'')")
     (auto simp: meaningCallback_def andThen_def split: sum.splits)

lemma forEach_meaningCallback:
  "forEach meaningCallback ms acc =
     andThen (sequence (map (\<lambda>m. meaningCallback m []) ms)) (\<lambda>lss. Inr (acc @ concat lss))"
  by (rule forEach_appending) (rule meaningCallback_append)

lemma callForEach_append:
  "callForEach v meaningCallback a = andThen (callForEach v meaningCallback []) (\<lambda>ls. Inr (a @ ls))"
proof (cases "\<exists>ms. v = Some (JArr ms)")
  case True
  then obtain ms where "v = Some (JArr ms)" by blast
  then show ?thesis
    by (cases "sequence (map (\<lambda>m. meaningCallback m []) ms)")
       (simp_all add: forEach_meaningCallback [of ms a] forEach_meaningCallback [of ms "[]"])
next
  case False
  then have "callForEach v meaningCallback b = Inl TypeError" for b
    by (cases "(v, meaningCallback, b)" rule: callForEach.cases) auto
  then show ?thesis by simp
qed

lemma itemCallback_append:
  "itemCallback item a = andThen (itemCallback item []) (\<lambda>ls. Inr (a @ ls))"
proof -
  have "itemCallback item b =
      andThen (get (Some item) (str ''meanings'')) (\<lambda>ms.
       if truthy ms \<and> lengthTruthy ms then callForEach ms meaningCallback b
       else
         andThen (get (Some item) (str ''phrase'')) (\<lambda>ph.
           if truthy ph then
             andThen (get ph (str ''text'')) (\<lambda>t.
               if truthy t then andThen (concatValue arrow t) (\<lambda>line. Inr (b @ [line]))
               else Inr b)
           else Inr b))" for b
    by (simp add: itemCallback_def)
  note unfold = this
  show ?thesis
    unfolding unfold [of a] unfold [of "[]"]
    using callForEach_append [of _ a]
    by (auto simp: andThen_def split: sum.splits)
qed

lemma forEach_itemCallback:
  "forEach itemCallback items acc =
     andThen (sequence (map (\<lambda>i. itemCallback i []) items)) (\<lambda>lss. Inr (acc @ concat lss))"
  by (rule forEach_appending) (rule itemCallback_append)

lemma forEach_exampleCallback:
  "forEach exampleCallback exs acc =
     andThen (sequence (map exampleLine exs)) (\<lambda>ls. Inr (acc @ ls))"
proof (induction exs arbitrary: acc)
  case Nil
  then show ?case by simp
next
  case (Cons ex exs)
  have step: "exampleCallback ex acc = andThen (exampleLine ex) (\<lambda>line. Inr (acc @ [line]))"
    by (simp add: exampleCallback_def)
  show ?case
    by (cases "exampleLine ex"; cases "sequence (map exampleLine exs)")
       (simp_all add: step Cons.IH)
qed

lemma sequence_all:
  assumes "sequence (map g xs) = Inr lss" and "\<And>x ls. g x = Inr ls \<Longrightarrow> \<forall>l \<in> set ls. P l"
  shows "\<forall>l \<in> set (concat lss). P l"
proof -
  from assms(1) have "map g xs = map Inr lss" by (simp add: sequence_Inr_iff)
  then have "\<forall>ls \<in> set lss. \<exists>x. g x = Inr ls"
    by (metis (no_types, lifting) in_set_conv_nth length_map nth_map)
  with assms(2) show ?thesis by fastforce
qed

lemma sequence_total:
  assumes "\<forall>x \<in> set xs. \<exists>y. g x = Inr y"
  shows "\<exists>ys. sequence (map g xs) = Inr ys"
  using assms
proof (induction xs)
  case Nil
  then show ?case by simp
next
  case (Cons x xs)
  then obtain y ys where "g x = Inr y" "sequence (map g xs) = Inr ys" by auto
  then show ?case by simp
qed

lemma meaningCallback_lines:
  assumes "meaningCallback m [] = Inr ls"
  shows "\<forall>l \<in> set ls. prefix arrow l"
  using assms
  by (cases "get (Some m) (str ''text'')")
     (auto simp: meaningCallback_def andThen_Inr_iff elim!: concatValue.elims split: if_splits sum.splits)

lemma callForEach_lines:
  assumes "callForEach v meaningCallback [] = Inr ls"
  shows "\<forall>l \<in> set ls. prefix arrow l"
proof -
  from assms obtain ms where v: "v = Some (JArr ms)"
    by (cases "(v, meaningCallback, []::jsstring list)" rule: callForEach.cases) auto
  with assms obtain lss where "sequence (map (\<lambda>m. meaningCallback m []) ms) = Inr lss" "ls = concat lss"
    by (auto simp: forEach_meaningCallback andThen_Inr_iff)
  then show ?thesis using sequence_all [of "\<lambda>m. meaningCallback m []" ms lss "prefix arrow"]
    by (simp add: meaningCallback_lines)
qed

lemma itemCallback_lines:
  assumes "itemCallback item [] = Inr ls"
  shows "\<forall>l \<in> set ls. prefix arrow l"
  using assms callForEach_lines
  by (auto simp: itemCallback_def andThen_Inr_iff elim!: concatValue.elims split: if_splits sum.splits)

lemma meaningCallback_text:
  assumes "get (Some m) (str ''text'') = Inr (Some v)" and "truthy (Some v)" and "toString v = Inr t"
  shows "meaningCallback m [] = Inr [arrow @ t]"
  using assms by (simp add: meaningCallback_def)

lemma itemCallback_meanings:
  assumes "map_of kvs (str ''meanings'') = Some (JArr ms)" and "ms \<noteq> []"
  shows "itemCallback (JObj kvs) [] = forEach meaningCallback ms []"
  using assms by (simp add: itemCallback_def)

lemma itemCallback_phrase:
  assumes "\<not> (truthy (map_of kvs (str ''meanings'')) \<and> lengthTruthy (map_of kvs (str ''meanings'')))"
    and "map_of kvs (str ''phrase'') = Some p" and "get (Some p) (str ''text'') = Inr (Some v)"
    and "truthy (Some v)" and "toString v = Inr t"
  shows "itemCallback (JObj kvs) [] = Inr [arrow @ t]"
proof -
  from assms(3) have "truthy (Some p)" by (cases p) simp_all
  with assms show ?thesis by (auto simp: itemCallback_def)
qed

lemma forEach_itemCallback_mem:
  assumes "forEach itemCallback items [] = Inr tls" and "item \<in> set items"
  shows "\<exists>ls. itemCallback item [] = Inr ls \<and> set ls \<subseteq> set tls"
proof -
  from assms(1) obtain lss where lss: "sequence (map (\<lambda>i. itemCallback i []) items) = Inr lss"
    and tls: "tls = concat lss"
    by (auto simp: forEach_itemCallback andThen_Inr_iff)
  from sequence_map_mem [OF lss assms(2)] tls show ?thesis by auto
qed

lemma forEach_meaningCallback_mem:
  assumes "forEach meaningCallback ms [] = Inr ls" and "m \<in> set ms"
  shows "\<exists>l. meaningCallback m [] = Inr l \<and> set l \<subseteq> set ls"
proof -
  from assms(1) obtain lss where lss: "sequence (map (\<lambda>m. meaningCallback m []) ms) = Inr lss"
    and ls: "ls = concat lss"
    by (auto simp: forEach_meaningCallback andThen_Inr_iff)
  from sequence_map_mem [OF lss assms(2)] ls show ?thesis by auto
qed

lemma item_line:
  assumes "(\<exists>ms m. map_of kvs (str ''meanings'') = Some (JArr ms) \<and> m \<in> set ms \<and>
              get (Some m) (str ''text'') = Inr (Some v)) \<or>
           (\<not> (truthy (map_of kvs (str ''meanings'')) \<and> lengthTruthy (map_of kvs (str ''meanings''))) \<and>
            (\<exists>p. map_of kvs (str ''phrase'') = Some p \<and> get (Some p) (str ''text'') = Inr (Some v)))"
    and "truthy (Some v)" and "toString v = Inr t"
    and "itemCallback (JObj kvs) [] = Inr ls"
  shows "arrow @ t \<in> set ls"
  using assms(1)
proof
  assume "\<exists>ms m. map_of kvs (str ''meanings'') = Some (JArr ms) \<and> m \<in> set ms \<and>
              get (Some m) (str ''text'') = Inr (Some v)"
  then obtain ms m where ms: "map_of kvs (str ''meanings'') = Some (JArr ms)" and m: "m \<in> set ms"
    and tv: "get (Some m) (str ''text'') = Inr (Some v)" by blast
  from m have "ms \<noteq> []" by auto
  from itemCallback_meanings [OF ms this] assms(4) have "forEach meaningCallback ms [] = Inr ls"
    by simp
  from forEach_meaningCallback_mem [OF this m] meaningCallback_text [OF tv assms(2,3)]
  show ?thesis by auto
next
  assume "\<not> (truthy (map_of kvs (str ''meanings'')) \<and> lengthTruthy (map_of kvs (str ''meanings''))) \<and>
            (\<exists>p. map_of kvs (str ''phrase'') = Some p \<and> get (Some p) (str ''text'') = Inr (Some v))"
  then obtain p where "\<not> (truthy (map_of kvs (str ''meanings'')) \<and> lengthTruthy (map_of kvs (str ''meanings'')))"
    "map_of kvs (str ''phrase'') = Some p" "get (Some p) (str ''text'') = Inr (Some v)" by blast
  from itemCallback_phrase [OF this assms(2,3)] assms(4) show ?thesis by simp
qed

section \<open>The lines of a decoded response\<close>

lemma tucPart_cases:
  assumes "tucPart j [] = Inr tls"
  shows "tls = [] \<or> (\<exists>items. get (Some j) (str ''tuc'') = Inr (Some (JArr items)) \<and>
           forEach itemCallback items [] = Inr tls)"
proof (cases "\<exists>items. get (Some j) (str ''tuc'') = Inr (Some (JArr items))")
  case True
  then obtain items where items: "get (Some j) (str ''tuc'') = Inr (Some (JArr items))" by blast
  then have "truthy (Some j)" by (cases j) simp_all
  with items assms show ?thesis
    by (cases "items = []") (auto simp: tucPart_def)
next
  case False
  have "tucPart j [] = Inr []"
  proof (cases "get (Some j) (str ''tuc'')")
    case (Inl e)
    then have "\<not> truthy (Some j)" by (cases j) simp_all
    then show ?thesis by (simp add: tucPart_def)
  next
    case (Inr v)
    with False have "\<And>items. v \<noteq> Some (JArr items)" by simp
    with Inr show ?thesis
      by (cases v) (auto simp: tucPart_def split: json.splits)
  qed
  with assms show ?thesis by simp
qed

lemma tucPart_lines:
  assumes "tucPart j [] = Inr tls"
  shows "\<forall>l \<in> set tls. prefix arrow l"
proof -
  from tucPart_cases [OF assms] show ?thesis
  proof
    assume "tls = []" then show ?thesis by simp
  next
    assume "\<exists>items. get (Some j) (str ''tuc'') = Inr (Some (JArr items)) \<and>
           forEach itemCallback items [] = Inr tls"
    then obtain items lss where "sequence (map (\<lambda>i. itemCallback i []) items) = Inr lss" "tls = concat lss"
      by (auto simp: forEach_itemCallback andThen_Inr_iff)
    then show ?thesis using sequence_all [of "\<lambda>i. itemCallback i []" items lss "prefix arrow"]
      by (simp add: itemCallback_lines)
  qed
qed

lemma tucPart_array:
  "get (Some j) (str ''tuc'') = Inr (Some (JArr items)) \<Longrightarrow>
   tucPart j acc = forEach itemCallback items acc"
  by (cases j) (auto simp: tucPart_def)

lemma examplesPart_array:
  "get (Some j) (str ''examples'') = Inr (Some (JArr exs)) \<Longrightarrow> exs \<noteq> [] \<Longrightarrow>
   examplesPart j acc =
     andThen (sequence (map exampleLine (take 6 exs))) (\<lambda>el. Inr (acc @ examplesHeader # el))"
  by (cases j) (auto simp: examplesPart_def forEach_exampleCallback andThen_def split: sum.splits)

lemma examplesPart_mono:
  assumes "examplesPart j acc = Inr out"
  shows "set acc \<subseteq> set out"
proof (cases "\<exists>exs. get (Some j) (str ''examples'') = Inr (Some (JArr exs)) \<and> exs \<noteq> []")
  case True
  then obtain exs where "get (Some j) (str ''examples'') = Inr (Some (JArr exs))" "exs \<noteq> []"
    by blast
  from examplesPart_array [OF this, of acc] assms
  have "andThen (sequence (map exampleLine (take 6 exs))) (\<lambda>el. Inr (acc @ examplesHeader # el)) = Inr out"
    by simp
  then show ?thesis by (auto simp: andThen_Inr_iff)
next
  case False
  have "examplesPart j acc = Inr acc"
  proof (cases "get (Some j) (str ''examples'')")
    case (Inl e)
    then have "\<not> truthy (Some j)" by (cases j) simp_all
    then show ?thesis by (simp add: examplesPart_def)
  next
    case (Inr v)
    with False have "\<And>exs. v = Some (JArr exs) \<Longrightarrow> exs = []" by simp
    with Inr show ?thesis
      by (cases v) (auto simp: examplesPart_def split: json.splits)
  qed
  with assms show ?thesis by simp
qed

lemma examplesHeader_not_arrow: "\<not> prefix arrow examplesHeader"
  by (simp add: arrow_def examplesHeader_def)

lemma examplesHeader_nonempty: "examplesHeader \<noteq> []"
  by (simp add: examplesHeader_def)

lemma extractLines_examples:
  assumes "get (Some j) (str ''examples'') = Inr (Some (JArr exs))" and "exs \<noteq> []"
    and "extractLines j = Inr out"
  shows "\<exists>tls el. tucPart j [] = Inr tls \<and> sequence (map exampleLine (take 6 exs)) = Inr el \<and>
           out = tls @ examplesHeader # el"
  using assms(3) by (auto simp: extractLines_def andThen_Inr_iff examplesPart_array [OF assms(1,2)])

lemma extractLines_absent:
  assumes "\<And>items. map_of kvs (str ''tuc'') = Some (JArr items) \<Longrightarrow> items = []"
    and "\<And>exs. map_of kvs (str ''examples'') = Some (JArr exs) \<Longrightarrow> exs = []"
  shows "extractLines (JObj kvs) = Inr []"
proof -
  have "tucPart (JObj kvs) [] = Inr []"
    using assms(1) by (auto simp: tucPart_def split: option.splits json.splits)
  moreover have "examplesPart (JObj kvs) [] = Inr []"
    using assms(2) by (auto simp: examplesPart_def split: option.splits json.splits)
  ultimately show ?thesis by (simp add: extractLines_def)
qed

lemma exampleLine_both:
  assumes "map_of kvs (str ''first'') = Some (JStr a)" and "a \<noteq> []"
    and "map_of kvs (str ''second'') = Some (JStr b)" and "b \<noteq> []"
  shows "exampleLine (JObj kvs) = Inr (a @ str '' '' @ dash @ b)"
  using assms by (simp add: exampleLine_def joinValues_def)

lemma exampleLine_first_only:
  assumes "map_of kvs (str ''first'') = Some (JStr a)" and "a \<noteq> []"
    and "\<not> truthy (map_of kvs (str ''second''))"
  shows "exampleLine (JObj kvs) = Inr a"
  using assms by (simp add: exampleLine_def joinValues_def)

lemma exampleLine_second_only:
  assumes "\<not> truthy (map_of kvs (str ''first''))"
    and "map_of kvs (str ''second'') = Some (JStr b)" and "b \<noteq> []"
  shows "exampleLine (JObj kvs) = Inr (dash @ b)"
  using assms by (cases "map_of kvs (str ''first'')") (simp_all add: exampleLine_def joinValues_def)

lemma exampleLine_neither:
  assumes "\<not> truthy (map_of kvs (str ''first''))" and "\<not> truthy (map_of kvs (str ''second''))"
  shows "exampleLine (JObj kvs) = Inr []"
  using assms by (cases "map_of kvs (str ''first'')") (simp_all add: exampleLine_def joinValues_def)

lemma cleanup_section:
  assumes "h \<noteq> []" and "h \<notin> set xs"
  shows "cleanup (xs @ h # ys) =
           cleanup xs @ h # filter (\<lambda>l. l \<noteq> [] \<and> l \<noteq> h \<and> l \<notin> set xs) (firstOccurrences ys)"
proof -
  have "filter (\<lambda>s. s \<noteq> []) (filter (\<lambda>y. y \<notin> set xs) (filter (\<lambda>y. y \<noteq> h) (firstOccurrences ys)))
      = filter (\<lambda>l. l \<noteq> [] \<and> l \<noteq> h \<and> l \<notin> set xs) (firstOccurrences ys)"
    by (auto intro: filter_cong)
  with assms show ?thesis
    by (simp add: cleanup_eq firstOccurrences_append)
qed

lemma cleanup_Cons:
  assumes "x \<noteq> []"
  shows "cleanup (x # ys) = x # filter (\<lambda>l. l \<noteq> [] \<and> l \<noteq> x) (firstOccurrences ys)"
proof -
  have "filter (\<lambda>s. s \<noteq> []) (filter (\<lambda>y. y \<noteq> x) (firstOccurrences ys))
      = filter (\<lambda>l. l \<noteq> [] \<and> l \<noteq> x) (firstOccurrences ys)"
    by (auto intro: filter_cong)
  with assms show ?thesis by (simp add: cleanup_eq)
qed

section \<open>No callback throws on the response the script is written for\<close>

lemma optionalString_cases:
  assumes "optionalString v"
  obtains "v = None" | s where "v = Some (JStr s)"
  using assms by (cases v rule: optionalString.cases) auto

lemma isMeaning_total:
  assumes "isMeaning m"
  shows "\<exists>ls. meaningCallback m [] = Inr ls"
proof -
  from assms obtain kvs where m: "m = JObj kvs" and "optionalString (map_of kvs (str ''text''))"
    by (auto simp: isMeaning_def split: json.splits)
  from this(2) show ?thesis
    by (rule optionalString_cases) (simp_all add: m meaningCallback_def)
qed

lemma meanings_total:
  assumes "list_all isMeaning ms"
  shows "\<exists>ls. forEach meaningCallback ms [] = Inr ls"
proof -
  from assms have "\<forall>m \<in> set ms. \<exists>ls. meaningCallback m [] = Inr ls"
    by (simp add: list_all_iff isMeaning_total)
  from sequence_total [OF this] show ?thesis
    by (auto simp: forEach_meaningCallback)
qed

lemma phrase_total:
  assumes "optionalString (map_of p (str ''text''))"
  shows "\<exists>ls. andThen (get (Some (JObj p)) (str ''text'')) (\<lambda>t.
               if truthy t then andThen (concatValue arrow t) (\<lambda>line. Inr ([] @ [line]))
               else Inr []) = Inr ls"
  using assms by (rule optionalString_cases) simp_all

lemma isUnit_total:
  assumes "isUnit item"
  shows "\<exists>ls. itemCallback item [] = Inr ls"
proof -
  from assms obtain kvs where item: "item = JObj kvs"
    and ms: "case map_of kvs (str ''meanings'') of
             None \<Rightarrow> True | Some (JArr ms) \<Rightarrow> list_all isMeaning ms | Some v \<Rightarrow> False"
    and ph: "case map_of kvs (str ''phrase'') of
             None \<Rightarrow> True | Some (JObj p) \<Rightarrow> optionalString (map_of p (str ''text''))
           | Some v \<Rightarrow> False"
    by (auto simp: isUnit_def split: json.splits)
  have rest: "\<exists>ls. andThen (get (Some (JObj kvs)) (str ''phrase'')) (\<lambda>ph.
           if truthy ph then
             andThen (get ph (str ''text'')) (\<lambda>t.
               if truthy t then andThen (concatValue arrow t) (\<lambda>line. Inr ([] @ [line]))
               else Inr [])
           else Inr []) = Inr ls"
  proof (cases "map_of kvs (str ''phrase'')")
    case None
    then show ?thesis by simp
  next
    case (Some v)
    with ph obtain p where "v = JObj p" "optionalString (map_of p (str ''text''))"
      by (auto split: json.splits)
    with Some phrase_total [of p] show ?thesis by simp
  qed
  show ?thesis
  proof (cases "map_of kvs (str ''meanings'')")
    case None
    with rest show ?thesis by (simp add: item itemCallback_def)
  next
    case (Some v)
    with ms obtain xs where v: "v = JArr xs" and all: "list_all isMeaning xs"
      by (auto split: json.splits)
    show ?thesis
    proof (cases "xs = []")
      case True
      with Some v rest show ?thesis by (simp add: item itemCallback_def)
    next
      case False
      with Some v meanings_total [OF all] show ?thesis by (simp add: item itemCallback_def)
    qed
  qed
qed

lemma isExample_total:
  assumes "isExample ex"
  shows "\<exists>l. exampleLine ex = Inr l"
proof -
  from assms obtain kvs where ex: "ex = JObj kvs"
    and f: "optionalString (map_of kvs (str ''first''))"
    and s: "optionalString (map_of kvs (str ''second''))"
    by (auto simp: isExample_def split: json.splits)
  from f s show ?thesis
    by (elim optionalString_cases) (simp_all add: ex exampleLine_def joinValues_def)
qed

lemma structured_extracts:
  assumes "structured j"
  shows "\<exists>out. extractLines j = Inr out"
proof -
  from assms obtain kvs where j: "j = JObj kvs"
    and tuc: "case map_of kvs (str ''tuc'') of
             None \<Rightarrow> True | Some (JArr items) \<Rightarrow> list_all isUnit items | Some v \<Rightarrow> False"
    and exs: "case map_of kvs (str ''examples'') of
             None \<Rightarrow> True | Some (JArr exs) \<Rightarrow> list_all isExample exs | Some v \<Rightarrow> False"
    by (auto simp: structured_def split: json.splits)
  have "\<exists>tls. tucPart j [] = Inr tls"
  proof (cases "map_of kvs (str ''tuc'')")
    case None
    then show ?thesis by (simp add: j tucPart_def)
  next
    case (Some v)
    with tuc obtain items where v: "v = JArr items" and all: "list_all isUnit items"
      by (auto split: json.splits)
    from all have "\<forall>i \<in> set items. \<exists>ls. itemCallback i [] = Inr ls"
      by (simp add: list_all_iff isUnit_total)
    from sequence_total [OF this] Some v show ?thesis
      by (auto simp: j tucPart_def forEach_itemCallback)
  qed
  then obtain tls where tls: "tucPart j [] = Inr tls" by blast
  have "\<exists>out. examplesPart j tls = Inr out"
  proof (cases "map_of kvs (str ''examples'')")
    case None
    then show ?thesis by (simp add: j examplesPart_def)
  next
    case (Some v)
    with exs obtain xs where v: "v = JArr xs" and all: "list_all isExample xs"
      by (auto split: json.splits)
    from all have "\<forall>ex \<in> set (take 6 xs). \<exists>l. exampleLine ex = Inr l"
      by (auto simp: list_all_iff isExample_total dest: in_set_takeD)
    from sequence_total [OF this] Some v show ?thesis
      by (auto simp: j examplesPart_def forEach_exampleCallback)
  qed
  with tls show ?thesis by (simp add: extractLines_def)
qed

section \<open>The stages\<close>

lemma apiStage_lines:
  assumes "fetch env [] url = Some r" and "resp_ok r" and "resp_json r = Some j"
    and "extractLines j = Inr out" and "out \<noteq> []"
  shows "fst (apiStage env url []) = Inr (cleanup out)"
  using assms by (simp add: apiStage_def doFetch_def jsonHandler_def)

lemma apiStage_empty:
  assumes "fetch env [] url = Some r" and "resp_ok r" and "resp_json r = Some j"
    and "extractLines j = Inr []"
  shows "fst (apiStage env url []) = Inl (Error ''Empty API result, fallback to HTML'')"
  using assms by (simp add: apiStage_def doFetch_def jsonHandler_def)

lemma apiStage_failure:
  "(\<exists>e. fst (apiStage env url log) = Inl e) \<longleftrightarrow>
   (case fetch env log url of
      None \<Rightarrow> True
    | Some response \<Rightarrow>
        \<not> resp_ok response \<or>
        (case resp_json response of
           None \<Rightarrow> True
         | Some json \<Rightarrow> (\<exists>e. extractLines json = Inl e) \<or> extractLines json = Inr []))"
  by (auto simp: apiStage_def doFetch_def jsonHandler_def andThen_def split: option.splits sum.splits)

lemma scrapeStage_document:
  assumes "fetch env log url = Some resp" and "resp_ok resp" and "resp_text resp = Some html"
    and "parseFromString env html = Some doc"
  shows "fst (scrapeStage env url log) = Inr (htmlHandler doc)"
  using assms by (simp add: scrapeStage_def doFetch_def)

lemma scrapeStage_failure:
  "(\<exists>e. fst (scrapeStage env url log) = Inl e) \<longleftrightarrow>
   (case fetch env log url of
      None \<Rightarrow> True
    | Some resp \<Rightarrow>
        \<not> resp_ok resp \<or>
        (case resp_text resp of None \<Rightarrow> True | Some html \<Rightarrow> parseFromString env html = None))"
  by (auto simp: scrapeStage_def doFetch_def split: option.splits)

lemma collect_no_match:
  assumes "\<forall>sel \<in> set sels. querySelectorAll doc sel = []"
  shows "collect doc sels = []"
proof -
  have "foldl (\<lambda>acc sel. foldl pushText acc (querySelectorAll doc sel)) acc sels = acc" for acc
    using assms by (induction sels arbitrary: acc) simp_all
  then show ?thesis by (simp add: collect_def)
qed

lemma htmlHandler_body:
  assumes "\<forall>sel \<in> set meaningSelectors. querySelectorAll doc sel = []"
    and "metaDescription doc = None"
    and "bodyTextContent doc = Some t" and "collapse (trim t) \<noteq> []"
  shows "htmlHandler doc =
           cleanup (take 800 (collapse (trim t)) #
             (if collect doc exampleSelectors \<noteq> []
              then examplesHeader # take 8 (collect doc exampleSelectors) else []))"
proof -
  from assms(4) have "t \<noteq> []" by (auto simp: trim_def)
  with assms(3) have body: "bodyText doc = collapse (trim t)" by (simp add: bodyText_def)
  from assms(1) have "collect doc meaningSelectors = []" by (rule collect_no_match)
  with assms(2,4) body show ?thesis
    by (simp add: htmlHandler_def withMeta_def Let_def)
qed

lemma htmlHandler_no_empty: "[] \<notin> set (htmlHandler doc)"
  by (simp add: htmlHandler_def Let_def set_cleanup)

lemma htmlHandler_distinct: "distinct (htmlHandler doc)"
  by (simp add: htmlHandler_def Let_def distinct_cleanup)

lemma jsonHandler_no_empty: "jsonHandler j = Inr lines \<Longrightarrow> [] \<notin> set lines"
  by (auto simp: jsonHandler_def andThen_Inr_iff set_cleanup split: if_splits)

lemma apiStage_no_empty: "fst (apiStage env url log) = Inr lines \<Longrightarrow> [] \<notin> set lines"
  by (auto simp: apiStage_def doFetch_def dest: jsonHandler_no_empty split: option.splits if_splits)

lemma scrapeStage_no_empty: "fst (scrapeStage env url log) = Inr lines \<Longrightarrow> [] \<notin> set lines"
  by (auto simp: scrapeStage_def doFetch_def htmlHandler_no_empty split: option.splits if_splits)

lemma findWord_no_empty_line:
  assumes "fst (findWord env word) = Inr (Fulfilled lines)"
  shows "[] \<notin> set lines"
proof -
  have fixed: "noWord \<noteq> []" "offlineFallback \<noteq> []"
    by (simp_all add: noWord_def offlineFallback_def str_def)
  consider (none) "word = Some (JStr []) \<or> (\<forall>w. word \<noteq> Some (JStr w))"
    | (word) w where "word = Some (JStr w)" "w \<noteq> []"
    by blast
  then show ?thesis
  proof cases
    case none
    from findWord_not_string [OF this, of env] assms fixed show ?thesis by auto
  next
    case word
    show ?thesis
    proof (cases "encodeURIComponent (trim w)")
      case (Inl e)
      with word assms show ?thesis by (simp add: findWord_throws)
    next
      case (Inr q)
      show ?thesis
      proof (cases "fst (apiStage env (apiUrl q) [])")
        case (Inl e)
        from findWord_fallback [OF word(2) Inr Inl] word(1) assms fixed
          scrapeStage_no_empty [of env "pageUrl q" "[apiUrl q]"]
        show ?thesis by (auto split: sum.splits)
      next
        case out: (Inr out)
        from findWord_success [OF word(2) Inr out] word(1) assms apiStage_no_empty [OF out]
        show ?thesis by simp
      qed
    qed
  qed
qed

lemma findWord_throws_iff:
  "fst (findWord env word) = Inl e \<longleftrightarrow>
   (\<exists>w. word = Some (JStr w) \<and> w \<noteq> [] \<and> encodeURIComponent (trim w) = Inl e)"
proof -
  consider (none) "word = Some (JStr []) \<or> (\<forall>w. word \<noteq> Some (JStr w))"
    | (word) w where "word = Some (JStr w)" "w \<noteq> []"
    by blast
  then show ?thesis
  proof cases
    case none
    from findWord_not_string [OF this, of env] none show ?thesis by auto
  next
    case word
    show ?thesis
    proof (cases "encodeURIComponent (trim w)")
      case (Inl e')
      with word show ?thesis by (simp add: findWord_throws)
    next
      case (Inr q)
      show ?thesis
      proof (cases "fst (apiStage env (apiUrl q) [])")
        case (Inl e')
        from findWord_fallback [OF word(2) Inr Inl] word(1) Inr show ?thesis by simp
      next
        case out: (Inr out)
        from findWord_success [OF word(2) Inr out] word(1) Inr show ?thesis by simp
      qed
    qed
  qed
qed

lemma findWord_never_rejects: "fst (findWord env word) \<noteq> Inr (Rejected e)"
proof -
  consider (none) "word = Some (JStr []) \<or> (\<forall>w. word \<noteq> Some (JStr w))"
    | (word) w where "word = Some (JStr w)" "w \<noteq> []"
    by blast
  then show ?thesis
  proof cases
    case none
    from findWord_not_string [OF this, of env] show ?thesis by simp
  next
    case word
    show ?thesis
    proof (cases "encodeURIComponent (trim w)")
      case (Inl e')
      with word show ?thesis by (simp add: findWord_throws)
    next
      case (Inr q)
      show ?thesis
      proof (cases "fst (apiStage env (apiUrl q) [])")
        case (Inl e')
        from findWord_fallback [OF word(2) Inr Inl] word(1) show ?thesis by simp
      next
        case out: (Inr out)
        from findWord_success [OF word(2) Inr out] word(1) show ?thesis by simp
      qed
    qed
  qed
qed

lemma getDefinition_joins:
  assumes "fst (findWord env word) = Inr (Fulfilled results)"
  shows "fst (getDefinition env word) =
           Fulfilled (if results = [] then str ''No result found''
                      else join (str [CHR 0x0A, CHR 0x0A]) results)"
  using assms by (cases "findWord env word") (simp add: getDefinition_def)

lemma getDefinition_rejects_iff:
  "fst (getDefinition env word) = Rejected e \<longleftrightarrow>
   (\<exists>w. word = Some (JStr w) \<and> w \<noteq> [] \<and> encodeURIComponent (trim w) = Inl e)"
proof -
  have "fst (getDefinition env word) = Rejected e \<longleftrightarrow> fst (findWord env word) = Inl e"
    by (cases "findWord env word")
       (auto simp: getDefinition_def split: sum.splits promise.splits)
  then show ?thesis by (simp add: findWord_throws_iff)
qed

section \<open>Evaluation on the samples\<close>

lemmas eval_defs = findWord_def getDefinition_def main_def fallback_def apiStage_def scrapeStage_def
  doFetch_def trim_def isWhiteSpace_def uriUnreserved_def isTrailSurrogate_def isLeadSurrogate_def
  offline_def

lemmas json_defs = extractLines_def tucPart_def examplesPart_def itemCallback_def
  meaningCallback_def exampleCallback_def exampleLine_def joinValues_def andThen_def

lemma cat_encodes: "str ''cat'' \<noteq> [] \<and> encodeURIComponent (trim (str ''cat'')) = Inr (str ''cat'')"
  by (simp add: str_def trim_def isWhiteSpace_def uriUnreserved_def)

lemma serving_first:
  "fetch (serving j) [] url = Some \<lparr>resp_ok = True, resp_json = Some j, resp_text = None\<rparr>"
  by (simp add: serving_def)

section \<open>The claims\<close>

subsection \<open>C1: the guard on the word\<close>

text \<open>
  Claim C1, as the script has it: for the empty string and for every value that is not a
  string, \<open>findWord\<close> resolves to the single line \<^verbatim>\<open>No word provided\<close>, the wrapper to
  that text, and no request is issued. The guard reads the word before it is trimmed.
\<close>

theorem no_word_provided:
  assumes "word = Some (JStr []) \<or> (\<forall>w. word \<noteq> Some (JStr w))"
  shows "findWord env word = (Inr (Fulfilled [noWord]), []) \<and>
         getDefinition env word = (Fulfilled noWord, [])"
proof -
  have "findWord env word = (Inr (Fulfilled [noWord]), [])"
    using assms by (rule findWord_not_string)
  then show ?thesis by (simp add: getDefinition_def)
qed

theorem no_word_provided_witness:
  "(Some (JNum (str ''42'')) = Some (JStr []) \<or> (\<forall>w. Some (JNum (str ''42'')) \<noteq> Some (JStr w))) \<and>
   findWord offline (Some (JNum (str ''42''))) = (Inr (Fulfilled [noWord]), []) \<and>
   getDefinition offline (Some (JNum (str ''42''))) = (Fulfilled noWord, [])"
  using no_word_provided [of "Some (JNum (str ''42''))" offline] by simp

text \<open>
  Claim C1 as stated does not hold for a word of white space only: a space and a tab pass
  the guard, are trimmed to the empty phrase, and both requests are issued with it.
\<close>

theorem whitespace_word_is_looked_up:
  "trim [0x20, 0x09] = [] \<and>
   findWord offline (Some (JStr [0x20, 0x09])) =
     (Inr (Fulfilled [offlineFallback]), [apiUrl [], pageUrl []]) \<and>
   findWord offline (Some (JStr [0x20, 0x09])) \<noteq> (Inr (Fulfilled [noWord]), [])"
  by (simp add: eval_defs)

subsection \<open>C2: the wrapper\<close>

text \<open>
  Claim C2 at a word that is an unpaired surrogate: \<^verbatim>\<open>encodeURIComponent\<close> throws while
  \<open>findWord\<close> builds the address, before any promise exists, inside the executor of the
  wrapper's promise. The promise of \<open>getDefinition\<close> rejects, whatever the host; the last
  statement of the script turns the rejection into the text \<^verbatim>\<open>Error\<close>. On every other
  word the wrapper's promise is fulfilled (\<open>getDefinition_rejects_iff\<close>), with the lines
  joined by two line breaks or with \<^verbatim>\<open>No result found\<close> (\<open>getDefinition_joins\<close>).
\<close>

theorem getDefinition_rejects_lone_surrogate:
  "getDefinition env (Some (JStr [0xD800])) = (Rejected URIError, []) \<and>
   main env (Some (JStr [0xD800])) = (str ''Error'', [])"
  by (simp add: eval_defs)

theorem getDefinition_rejects_lone_surrogate_witness:
  "getDefinition offline (Some (JStr [0xD800])) = (Rejected URIError, []) \<and>
   main offline (Some (JStr [0xD800])) = (str ''Error'', [])"
  using getDefinition_rejects_lone_surrogate [of offline] by simp

subsection \<open>C3: the offline fallback\<close>

text \<open>
  Claim C3: when the structured lookup fails and the scrape stage fails too, whatever the
  two failures are (\<open>apiStage_failure\<close> and \<open>scrapeStage_failure\<close> list them), \<open>findWord\<close>
  returns a promise that resolves to the single fixed line of the offline fallback, and the
  wrapper resolves to that text.
\<close>

theorem offline_fallback:
  assumes "w \<noteq> []" and "encodeURIComponent (trim w) = Inr q"
    and "fst (apiStage env (apiUrl q) []) = Inl e"
    and "fst (scrapeStage env (pageUrl q) [apiUrl q]) = Inl e'"
  shows "findWord env (Some (JStr w)) =
           (Inr (Fulfilled [offlineFallback]), [apiUrl q, pageUrl q]) \<and>
         getDefinition env (Some (JStr w)) = (Fulfilled offlineFallback, [apiUrl q, pageUrl q])"
proof -
  have "findWord env (Some (JStr w)) = (Inr (Fulfilled [offlineFallback]), [apiUrl q, pageUrl q])"
    using findWord_fallback [OF assms(1,2,3)] assms(4) by simp
  then show ?thesis by (simp add: getDefinition_def)
qed

theorem offline_fallback_witness:
  "str ''cat'' \<noteq> [] \<and> encodeURIComponent (trim (str ''cat'')) = Inr (str ''cat'') \<and>
   fst (apiStage offline (apiUrl (str ''cat'')) []) = Inl NetworkError \<and>
   fst (scrapeStage offline (pageUrl (str ''cat'')) [apiUrl (str ''cat'')]) = Inl NetworkError \<and>
   findWord offline (Some (JStr (str ''cat''))) =
     (Inr (Fulfilled [offlineFallback]), [apiUrl (str ''cat''), pageUrl (str ''cat'')])"
proof -
  have 1: "str ''cat'' \<noteq> []" by (simp add: str_def)
  have 2: "encodeURIComponent (trim (str ''cat'')) = Inr (str ''cat'')"
    by (simp add: str_def eval_defs)
  have 3: "fst (apiStage offline (apiUrl (str ''cat'')) []) = Inl NetworkError"
    by (simp add: eval_defs)
  have 4: "fst (scrapeStage offline (pageUrl (str ''cat'')) [apiUrl (str ''cat'')]) = Inl NetworkError"
    by (simp add: eval_defs)
  from offline_fallback [OF 1 2 3 4] 1 2 3 4 show ?thesis by simp
qed

subsection \<open>C4: the lines of the meanings\<close>

lemma meaning_line_present:
  assumes "w \<noteq> []" and "encodeURIComponent (trim w) = Inr q"
    and "fetch env [] (apiUrl q) = Some r" and "resp_ok r" and "resp_json r = Some j"
    and "extractLines j = Inr out"
    and "get (Some j) (str ''tuc'') = Inr (Some (JArr items))" and "JObj kvs \<in> set items"
    and "(\<exists>ms m. map_of kvs (str ''meanings'') = Some (JArr ms) \<and> m \<in> set ms \<and>
              get (Some m) (str ''text'') = Inr (Some v)) \<or>
         (\<not> (truthy (map_of kvs (str ''meanings'')) \<and> lengthTruthy (map_of kvs (str ''meanings''))) \<and>
          (\<exists>p. map_of kvs (str ''phrase'') = Some p \<and> get (Some p) (str ''text'') = Inr (Some v)))"
    and "truthy (Some v)" and "toString v = Inr t"
  shows "\<exists>lines. findWord env (Some (JStr w)) = (Inr (Fulfilled lines), [apiUrl q]) \<and>
           arrow @ t \<in> set lines"
proof -
  from assms(6) obtain tls where tls: "tucPart j [] = Inr tls" and out: "examplesPart j tls = Inr out"
    by (auto simp: extractLines_def andThen_Inr_iff)
  from tls assms(7) have "forEach itemCallback items [] = Inr tls"
    by (simp add: tucPart_array)
  from forEach_itemCallback_mem [OF this assms(8)]
  obtain ls where ls: "itemCallback (JObj kvs) [] = Inr ls" "set ls \<subseteq> set tls" by blast
  from item_line [OF assms(9,10,11) ls(1)] ls(2) examplesPart_mono [OF out]
  have mem: "arrow @ t \<in> set out" by blast
  then have "out \<noteq> []" by auto
  from apiStage_lines [OF assms(3,4,5,6) this]
  have "findWord env (Some (JStr w)) = (Inr (Fulfilled (cleanup out)), [apiUrl q])"
    by (rule findWord_success [OF assms(1,2)])
  moreover from mem have "arrow @ t \<in> set (cleanup out)"
    by (simp add: set_cleanup arrow_def)
  ultimately show ?thesis by blast
qed

lemma meaningCallback_falsy:
  assumes "get (Some m) (str ''text'') = Inr u" and "\<not> truthy u"
  shows "meaningCallback m acc = Inr acc"
  using assms by (simp add: meaningCallback_def)

lemma itemCallback_phrase_falsy:
  assumes "\<not> (truthy (map_of kvs (str ''meanings'')) \<and> lengthTruthy (map_of kvs (str ''meanings'')))"
    and "map_of kvs (str ''phrase'') = Some p" and "get (Some p) (str ''text'') = Inr u"
    and "\<not> truthy u"
  shows "itemCallback (JObj kvs) acc = Inr acc"
  using assms by (auto simp: itemCallback_def)

lemma itemCallback_nothing:
  assumes "\<not> (truthy (map_of kvs (str ''meanings'')) \<and> lengthTruthy (map_of kvs (str ''meanings'')))"
    and "\<not> truthy (map_of kvs (str ''phrase''))"
  shows "itemCallback (JObj kvs) acc = Inr acc"
  using assms by (auto simp: itemCallback_def)

text \<open>
  Claim C4, as the script has it. Let the request to the API be answered with a decoded
  response on which no callback throws. First: when an entry of its \<^verbatim>\<open>tuc\<close> array holds a
  value \<open>v\<close> that is truthy and converts to the string \<open>t\<close>, either as the \<^verbatim>\<open>text\<close> of one
  of its meanings, or, the entry having no non-empty meanings, as the \<^verbatim>\<open>text\<close> of its
  phrase, the result holds the line made of the arrow, a space and \<open>t\<close>, and the request to
  the API is the only one issued. Second: a meaning whose \<^verbatim>\<open>text\<close> is falsy (missing,
  empty) leaves the lines as they are. Third: so does an entry without non-empty meanings
  whose phrase is falsy or has a falsy \<^verbatim>\<open>text\<close>. Fourth: when no line at all is extracted,
  the request for the page follows the request to the API.
\<close>

theorem meaning_lines:
  "(w \<noteq> [] \<and> encodeURIComponent (trim w) = Inr q \<and>
    fetch env [] (apiUrl q) = Some r \<and> resp_ok r \<and> resp_json r = Some j \<and>
    extractLines j = Inr out \<and>
    get (Some j) (str ''tuc'') = Inr (Some (JArr items)) \<and> JObj kvs \<in> set items \<and>
    ((\<exists>ms m. map_of kvs (str ''meanings'') = Some (JArr ms) \<and> m \<in> set ms \<and>
         get (Some m) (str ''text'') = Inr (Some v)) \<or>
     (\<not> (truthy (map_of kvs (str ''meanings'')) \<and> lengthTruthy (map_of kvs (str ''meanings''))) \<and>
      (\<exists>p. map_of kvs (str ''phrase'') = Some p \<and> get (Some p) (str ''text'') = Inr (Some v)))) \<and>
    truthy (Some v) \<and> toString v = Inr t \<longrightarrow>
      (\<exists>lines. findWord env (Some (JStr w)) = (Inr (Fulfilled lines), [apiUrl q]) \<and>
         arrow @ t \<in> set lines)) \<and>
   (\<forall>m acc u. get (Some m) (str ''text'') = Inr u \<and> \<not> truthy u \<longrightarrow>
      meaningCallback m acc = Inr acc) \<and>
   (\<forall>kvs' acc.
      \<not> (truthy (map_of kvs' (str ''meanings'')) \<and> lengthTruthy (map_of kvs' (str ''meanings''))) \<and>
      (\<not> truthy (map_of kvs' (str ''phrase'')) \<or>
       (\<exists>p u. map_of kvs' (str ''phrase'') = Some p \<and> get (Some p) (str ''text'') = Inr u \<and>
          \<not> truthy u)) \<longrightarrow>
      itemCallback (JObj kvs') acc = Inr acc) \<and>
   (w \<noteq> [] \<and> encodeURIComponent (trim w) = Inr q \<and>
    fetch env [] (apiUrl q) = Some r \<and> resp_ok r \<and> resp_json r = Some j \<and>
    extractLines j = Inr [] \<longrightarrow>
      snd (findWord env (Some (JStr w))) = [apiUrl q, pageUrl q])"
proof (intro conjI impI allI)
  assume "w \<noteq> [] \<and> encodeURIComponent (trim w) = Inr q \<and>
    fetch env [] (apiUrl q) = Some r \<and> resp_ok r \<and> resp_json r = Some j \<and>
    extractLines j = Inr out \<and>
    get (Some j) (str ''tuc'') = Inr (Some (JArr items)) \<and> JObj kvs \<in> set items \<and>
    ((\<exists>ms m. map_of kvs (str ''meanings'') = Some (JArr ms) \<and> m \<in> set ms \<and>
         get (Some m) (str ''text'') = Inr (Some v)) \<or>
     (\<not> (truthy (map_of kvs (str ''meanings'')) \<and> lengthTruthy (map_of kvs (str ''meanings''))) \<and>
      (\<exists>p. map_of kvs (str ''phrase'') = Some p \<and> get (Some p) (str ''text'') = Inr (Some v)))) \<and>
    truthy (Some v) \<and> toString v = Inr t"
  then show "\<exists>lines. findWord env (Some (JStr w)) = (Inr (Fulfilled lines), [apiUrl q]) \<and>
         arrow @ t \<in> set lines"
    by (elim conjE) (rule meaning_line_present)
next
  fix m acc u
  assume "get (Some m) (str ''text'') = Inr u \<and> \<not> truthy u"
  then show "meaningCallback m acc = Inr acc"
    by (elim conjE) (rule meaningCallback_falsy)
next
  fix kvs' acc
  assume h: "\<not> (truthy (map_of kvs' (str ''meanings'')) \<and> lengthTruthy (map_of kvs' (str ''meanings''))) \<and>
      (\<not> truthy (map_of kvs' (str ''phrase'')) \<or>
       (\<exists>p u. map_of kvs' (str ''phrase'') = Some p \<and> get (Some p) (str ''text'') = Inr u \<and>
          \<not> truthy u))"
  then have no: "\<not> (truthy (map_of kvs' (str ''meanings'')) \<and> lengthTruthy (map_of kvs' (str ''meanings'')))"
    by (rule conjunct1)
  from h have "\<not> truthy (map_of kvs' (str ''phrase'')) \<or>
       (\<exists>p u. map_of kvs' (str ''phrase'') = Some p \<and> get (Some p) (str ''text'') = Inr u \<and>
          \<not> truthy u)"
    by (rule conjunct2)
  then show "itemCallback (JObj kvs') acc = Inr acc"
  proof
    assume "\<not> truthy (map_of kvs' (str ''phrase''))"
    with no show ?thesis by (rule itemCallback_nothing)
  next
    assume "\<exists>p u. map_of kvs' (str ''phrase'') = Some p \<and> get (Some p) (str ''text'') = Inr u \<and>
          \<not> truthy u"
    then obtain p u where "map_of kvs' (str ''phrase'') = Some p" "get (Some p) (str ''text'') = Inr u"
      "\<not> truthy u" by blast
    with no show ?thesis by (rule itemCallback_phrase_falsy)
  qed
next
  assume "w \<noteq> [] \<and> encodeURIComponent (trim w) = Inr q \<and>
    fetch env [] (apiUrl q) = Some r \<and> resp_ok r \<and> resp_json r = Some j \<and>
    extractLines j = Inr []"
  then have w: "w \<noteq> []" and q: "encodeURIComponent (trim w) = Inr q"
    and "fetch env [] (apiUrl q) = Some r" "resp_ok r" "resp_json r = Some j" "extractLines j = Inr []"
    by simp_all
  from this(3-6) have "fst (apiStage env (apiUrl q) []) = Inl (Error ''Empty API result, fallback to HTML'')"
    by (rule apiStage_empty)
  from findWord_fallback [OF w q this] show "snd (findWord env (Some (JStr w))) = [apiUrl q, pageUrl q]"
    by simp
qed

theorem meaning_lines_witness:
  "extractLines meaningResponse = Inr [arrow @ str ''A''] \<and>
   (\<exists>lines. findWord (serving meaningResponse) (Some (JStr (str ''cat''))) =
      (Inr (Fulfilled lines), [apiUrl (str ''cat'')]) \<and> arrow @ str ''A'' \<in> set lines) \<and>
   meaningCallback (JObj [(str ''text'', JStr [])]) [arrow @ str ''A''] = Inr [arrow @ str ''A''] \<and>
   meaningCallback (JObj []) [arrow @ str ''A''] = Inr [arrow @ str ''A''] \<and>
   itemCallback (JObj [(str ''phrase'', JObj [(str ''text'', JStr [])])]) [] = Inr [] \<and>
   snd (findWord (serving emptyTextResponse) (Some (JStr (str ''cat'')))) =
     [apiUrl (str ''cat''), pageUrl (str ''cat'')]"
proof -
  let ?m = "JObj [(str ''text'', JStr (str ''A''))]"
  let ?kvs = "[(str ''meanings'', JArr [?m])]"
  let ?r = "\<lparr>resp_ok = True, resp_json = Some meaningResponse, resp_text = None\<rparr>"
  let ?r' = "\<lparr>resp_ok = True, resp_json = Some emptyTextResponse, resp_text = None\<rparr>"
  let ?p = "[(str ''phrase'', JObj [(str ''text'', JStr [])])]"
  note cat = cat_encodes [THEN conjunct1] cat_encodes [THEN conjunct2]
  have 1: "extractLines meaningResponse = Inr [arrow @ str ''A'']"
    by (simp add: json_defs meaningResponse_def str_def)
  have 2: "get (Some meaningResponse) (str ''tuc'') = Inr (Some (JArr [JObj ?kvs]))"
    by (simp add: meaningResponse_def str_def)
  have 3: "JObj ?kvs \<in> set [JObj ?kvs]" by simp
  have 4: "(\<exists>ms m. map_of ?kvs (str ''meanings'') = Some (JArr ms) \<and> m \<in> set ms \<and>
              get (Some m) (str ''text'') = Inr (Some (JStr (str ''A'')))) \<or>
         (\<not> (truthy (map_of ?kvs (str ''meanings'')) \<and> lengthTruthy (map_of ?kvs (str ''meanings''))) \<and>
          (\<exists>p. map_of ?kvs (str ''phrase'') = Some p \<and>
             get (Some p) (str ''text'') = Inr (Some (JStr (str ''A'')))))"
    by (rule disjI1) (simp add: str_def)
  have 5: "truthy (Some (JStr (str ''A'')))" by (simp add: str_def)
  have 6: "toString (JStr (str ''A'')) = Inr (str ''A'')" by simp
  have 7: "resp_ok ?r" "resp_json ?r = Some meaningResponse" by simp_all
  have 8: "resp_ok ?r'" "resp_json ?r' = Some emptyTextResponse" by simp_all
  have 9: "extractLines emptyTextResponse = Inr []"
    by (simp add: json_defs emptyTextResponse_def str_def)
  have 10: "get (Some (JObj [(str ''text'', JStr [])])) (str ''text'') = Inr (Some (JStr []))"
    "\<not> truthy (Some (JStr []))"
    "get (Some (JObj [])) (str ''text'') = Inr None" "\<not> truthy None"
    by simp_all
  have 11: "\<not> (truthy (map_of ?p (str ''meanings'')) \<and> lengthTruthy (map_of ?p (str ''meanings'')))"
    "map_of ?p (str ''phrase'') = Some (JObj [(str ''text'', JStr [])])"
    by (simp_all add: str_def)
  have present: "\<exists>lines. findWord (serving meaningResponse) (Some (JStr (str ''cat''))) =
      (Inr (Fulfilled lines), [apiUrl (str ''cat'')]) \<and> arrow @ str ''A'' \<in> set lines"
    by (rule meaning_lines [where w = "str ''cat''" and q = "str ''cat''"
          and env = "serving meaningResponse" and r = ?r and j = meaningResponse
          and out = "[arrow @ str ''A'']" and items = "[JObj ?kvs]" and kvs = ?kvs
          and v = "JStr (str ''A'')" and t = "str ''A''", THEN conjunct1, THEN mp])
       (intro conjI cat serving_first 7 1 2 3 4 5 6)
  have skip1: "meaningCallback (JObj [(str ''text'', JStr [])]) [arrow @ str ''A''] = Inr [arrow @ str ''A'']"
    using meaning_lines [THEN conjunct2, THEN conjunct1] 10(1,2) by blast
  have skip2: "meaningCallback (JObj []) [arrow @ str ''A''] = Inr [arrow @ str ''A'']"
    using meaning_lines [THEN conjunct2, THEN conjunct1] 10(3,4) by blast
  have skip3: "itemCallback (JObj ?p) [] = Inr []"
    using meaning_lines [THEN conjunct2, THEN conjunct2, THEN conjunct1] 11 10(1,2) by blast
  have through: "snd (findWord (serving emptyTextResponse) (Some (JStr (str ''cat'')))) =
     [apiUrl (str ''cat''), pageUrl (str ''cat'')]"
    by (rule meaning_lines [where w = "str ''cat''" and q = "str ''cat''"
          and env = "serving emptyTextResponse" and r = ?r' and j = emptyTextResponse,
          THEN conjunct2, THEN conjunct2, THEN conjunct2, THEN mp])
       (intro conjI cat serving_first 8 9)
  from 1 present skip1 skip2 skip3 through show ?thesis by (intro conjI)
qed

text \<open>
  Claim C4 as stated does not hold for a meaning whose text is empty: the entry has a
  non-empty list of meanings, the guard on the text skips the only one, nothing is
  extracted, and the request for the page is issued.
\<close>

theorem empty_meaning_text_falls_through:
  "findWord (serving emptyTextResponse) (Some (JStr (str ''cat''))) =
     (Inr (Fulfilled [offlineFallback]), [apiUrl (str ''cat''), pageUrl (str ''cat'')])"
  by (simp add: findWord_def fallback_def apiStage_def scrapeStage_def doFetch_def serving_def
      jsonHandler_def json_defs emptyTextResponse_def str_def trim_def isWhiteSpace_def
      uriUnreserved_def Let_def)

subsection \<open>C5: an empty extraction falls through to the scrape\<close>

text \<open>
  Claim C5: when the decoded response yields no line (as it does when \<^verbatim>\<open>tuc\<close> and
  \<^verbatim>\<open>examples\<close> are missing or empty, \<open>extractLines_absent\<close>), the stage of the API fails
  with the error of the empty result, and the request for the page follows, its address
  built from the same encoded phrase \<open>q\<close> as the address of the API.
\<close>

theorem empty_result_falls_through:
  assumes "w \<noteq> []" and "encodeURIComponent (trim w) = Inr q"
    and "fetch env [] (apiUrl q) = Some r" and "resp_ok r" and "resp_json r = Some j"
    and "extractLines j = Inr []"
  shows "fst (apiStage env (apiUrl q) []) = Inl (Error ''Empty API result, fallback to HTML'') \<and>
         snd (findWord env (Some (JStr w))) = [apiUrl q, pageUrl q]"
proof -
  have failed: "fst (apiStage env (apiUrl q) []) = Inl (Error ''Empty API result, fallback to HTML'')"
    using assms(3,4,5,6) by (rule apiStage_empty)
  from findWord_fallback [OF assms(1,2) failed] failed show ?thesis by simp
qed

theorem empty_result_falls_through_witness:
  "extractLines (JObj []) = Inr [] \<and>
   snd (findWord (serving (JObj [])) (Some (JStr (str ''cat'')))) =
     [apiUrl (str ''cat''), pageUrl (str ''cat'')]"
proof -
  have 1: "extractLines (JObj []) = Inr []" by (simp add: json_defs)
  have 2: "resp_ok \<lparr>resp_ok = True, resp_json = Some (JObj []), resp_text = None\<rparr>" by simp
  have 3: "resp_json \<lparr>resp_ok = True, resp_json = Some (JObj []), resp_text = None\<rparr> = Some (JObj [])"
    by simp
  from empty_result_falls_through [OF cat_encodes [THEN conjunct1] cat_encodes [THEN conjunct2]
      serving_first 2 3 1] 1
  show ?thesis by simp
qed

subsection \<open>C6: the section of the examples\<close>

text \<open>
  Claim C6: when the decoded response carries a non-empty array \<^verbatim>\<open>examples\<close> and no
  callback throws, the result is the lines of the meanings, then the header (a line break
  followed by \<^verbatim>\<open>Examples:\<close>), then lines of the first six examples only: the renderings
  \<open>el\<close> of those entries, in their order, without the empty ones and without repetitions, so
  at most six. An entry with both texts is rendered as the first, a space, the dash, a
  space and the second; an entry with the first only as the first.
\<close>

theorem examples_section:
  assumes "w \<noteq> []" and "encodeURIComponent (trim w) = Inr q"
    and "fetch env [] (apiUrl q) = Some r" and "resp_ok r" and "resp_json r = Some j"
    and "extractLines j = Inr out"
    and "get (Some j) (str ''examples'') = Inr (Some (JArr exs))" and "exs \<noteq> []"
  shows "\<exists>pre post el.
           findWord env (Some (JStr w)) = (Inr (Fulfilled (pre @ examplesHeader # post)), [apiUrl q]) \<and>
           examplesHeader \<notin> set pre \<and> examplesHeader \<notin> set post \<and>
           sequence (map exampleLine (take 6 exs)) = Inr el \<and>
           post = filter (\<lambda>l. l \<noteq> [] \<and> l \<noteq> examplesHeader \<and> l \<notin> set pre) (firstOccurrences el) \<and>
           subseq post el \<and> length post \<le> 6 \<and>
           (\<forall>kvs a b. map_of kvs (str ''first'') = Some (JStr a) \<and> a \<noteq> [] \<and>
              map_of kvs (str ''second'') = Some (JStr b) \<and> b \<noteq> [] \<longrightarrow>
              exampleLine (JObj kvs) = Inr (a @ str '' '' @ dash @ b)) \<and>
           (\<forall>kvs a. map_of kvs (str ''first'') = Some (JStr a) \<and> a \<noteq> [] \<and>
              \<not> truthy (map_of kvs (str ''second'')) \<longrightarrow>
              exampleLine (JObj kvs) = Inr a)"
proof -
  from extractLines_examples [OF assms(7,8,6)]
  obtain tls el where tls: "tucPart j [] = Inr tls"
    and el: "sequence (map exampleLine (take 6 exs)) = Inr el"
    and out: "out = tls @ examplesHeader # el" by blast
  let ?pre = "cleanup tls"
  let ?post = "filter (\<lambda>l. l \<noteq> [] \<and> l \<noteq> examplesHeader \<and> l \<notin> set ?pre) (firstOccurrences el)"
  from tucPart_lines [OF tls] examplesHeader_not_arrow have fresh: "examplesHeader \<notin> set tls"
    by blast
  have same: "(l \<noteq> [] \<and> l \<noteq> examplesHeader \<and> l \<notin> set ?pre)
      = (l \<noteq> [] \<and> l \<noteq> examplesHeader \<and> l \<notin> set tls)" for l
    by (auto simp: set_cleanup)
  from cleanup_section [OF examplesHeader_nonempty fresh, of el] out
  have lines: "cleanup out = ?pre @ examplesHeader # ?post"
    by (simp add: same)
  from out have "out \<noteq> []" by simp
  from apiStage_lines [OF assms(3,4,5,6) this]
  have "findWord env (Some (JStr w)) = (Inr (Fulfilled (cleanup out)), [apiUrl q])"
    by (rule findWord_success [OF assms(1,2)])
  with lines have 1: "findWord env (Some (JStr w)) =
      (Inr (Fulfilled (?pre @ examplesHeader # ?post)), [apiUrl q])" by simp
  from fresh have 2: "examplesHeader \<notin> set ?pre" by (simp add: set_cleanup)
  have 3: "examplesHeader \<notin> set ?post" by simp
  have "subseq ?post (firstOccurrences el)" by simp
  then have 4: "subseq ?post el"
    using subseq_firstOccurrences by (rule subseq_order.trans)
  from el have "length el = length (take 6 exs)"
    by (simp add: sequence_map_Inr)
  moreover from 4 have "length ?post \<le> length el" by (rule list_emb_length)
  ultimately have 5: "length ?post \<le> 6" by simp
  have 6: "\<forall>kvs a b. map_of kvs (str ''first'') = Some (JStr a) \<and> a \<noteq> [] \<and>
              map_of kvs (str ''second'') = Some (JStr b) \<and> b \<noteq> [] \<longrightarrow>
              exampleLine (JObj kvs) = Inr (a @ str '' '' @ dash @ b)"
    by (simp add: exampleLine_both)
  have 7: "\<forall>kvs a. map_of kvs (str ''first'') = Some (JStr a) \<and> a \<noteq> [] \<and>
              \<not> truthy (map_of kvs (str ''second'')) \<longrightarrow>
              exampleLine (JObj kvs) = Inr a"
    by (simp add: exampleLine_first_only)
  from 1 2 3 el 4 5 6 7 show ?thesis by blast
qed

theorem examples_section_witness:
  "extractLines exampleResponse = Inr [examplesHeader, str ''cat '' @ dash @ str ''meo''] \<and>
   findWord (serving exampleResponse) (Some (JStr (str ''cat''))) =
     (Inr (Fulfilled [examplesHeader, str ''cat '' @ dash @ str ''meo'']), [apiUrl (str ''cat'')]) \<and>
   (\<exists>pre post. findWord (serving exampleResponse) (Some (JStr (str ''cat''))) =
      (Inr (Fulfilled (pre @ examplesHeader # post)), [apiUrl (str ''cat'')]) \<and> length post \<le> 6)"
proof -
  let ?exs = "[JObj [(str ''first'', JStr (str ''cat'')), (str ''second'', JStr (str ''meo''))]]"
  have 1: "extractLines exampleResponse = Inr [examplesHeader, str ''cat '' @ dash @ str ''meo'']"
    by (simp add: json_defs exampleResponse_def str_def dash_def)
  have 2: "get (Some exampleResponse) (str ''examples'') = Inr (Some (JArr ?exs))"
    by (simp add: exampleResponse_def str_def)
  have 3: "?exs \<noteq> []" by simp
  have 4: "resp_ok \<lparr>resp_ok = True, resp_json = Some exampleResponse, resp_text = None\<rparr>" by simp
  have 5: "resp_json \<lparr>resp_ok = True, resp_json = Some exampleResponse, resp_text = None\<rparr>
      = Some exampleResponse" by simp
  have 6: "findWord (serving exampleResponse) (Some (JStr (str ''cat''))) =
     (Inr (Fulfilled [examplesHeader, str ''cat '' @ dash @ str ''meo'']), [apiUrl (str ''cat'')])"
    by (simp add: findWord_def apiStage_def doFetch_def serving_def jsonHandler_def json_defs
        exampleResponse_def str_def trim_def isWhiteSpace_def uriUnreserved_def Let_def
        cleanup_def fromSet_def setAdd_def examplesHeader_def dash_def)
  from examples_section [OF cat_encodes [THEN conjunct1] cat_encodes [THEN conjunct2]
      serving_first 4 5 1 2 3]
  have "\<exists>pre post. findWord (serving exampleResponse) (Some (JStr (str ''cat''))) =
      (Inr (Fulfilled (pre @ examplesHeader # post)), [apiUrl (str ''cat'')]) \<and> length post \<le> 6"
    by blast
  with 1 6 show ?thesis by simp
qed

subsection \<open>C7: each line once\<close>

text \<open>
  Claim C7: when the decoded response yields the lines \<open>out\<close>, the result holds every
  non-empty line of \<open>out\<close> exactly once, however often it occurs in \<open>out\<close>, and no empty
  line; it is a subsequence of \<open>out\<close>, and its lines stand in the order of their first
  occurrences in \<open>out\<close>.
\<close>

theorem duplicates_removed:
  assumes "w \<noteq> []" and "encodeURIComponent (trim w) = Inr q"
    and "fetch env [] (apiUrl q) = Some r" and "resp_ok r" and "resp_json r = Some j"
    and "extractLines j = Inr out" and "out \<noteq> []"
  shows "\<exists>lines. findWord env (Some (JStr w)) = (Inr (Fulfilled lines), [apiUrl q]) \<and>
           lines = filter (\<lambda>l. l \<noteq> []) (firstOccurrences out) \<and>
           distinct lines \<and> set lines = set out - {[]} \<and>
           (\<forall>l \<in> set out. l \<noteq> [] \<longrightarrow> count_list lines l = 1) \<and>
           subseq lines out \<and>
           sorted_wrt (\<lambda>a b. firstIndex out a < firstIndex out b) lines"
proof -
  from apiStage_lines [OF assms(3,4,5,6,7)]
  have "findWord env (Some (JStr w)) = (Inr (Fulfilled (cleanup out)), [apiUrl q])"
    by (rule findWord_success [OF assms(1,2)])
  moreover have "cleanup out = filter (\<lambda>l. l \<noteq> []) (firstOccurrences out)"
    by (rule cleanup_eq)
  moreover have "\<forall>l \<in> set out. l \<noteq> [] \<longrightarrow> count_list (cleanup out) l = 1"
    by (simp add: count_cleanup)
  ultimately show ?thesis
    using distinct_cleanup [of out] set_cleanup [of out] subseq_cleanup [of out]
      sorted_cleanup [of out]
    by simp
qed

theorem duplicates_removed_witness:
  "extractLines duplicateResponse = Inr [arrow @ str ''A'', arrow @ str ''A''] \<and>
   findWord (serving duplicateResponse) (Some (JStr (str ''cat''))) =
     (Inr (Fulfilled [arrow @ str ''A'']), [apiUrl (str ''cat'')]) \<and>
   count_list [arrow @ str ''A''] (arrow @ str ''A'') = 1"
proof -
  have 1: "extractLines duplicateResponse = Inr [arrow @ str ''A'', arrow @ str ''A'']"
    by (simp add: json_defs duplicateResponse_def str_def)
  have 2: "[arrow @ str ''A'', arrow @ str ''A''] \<noteq> []" by simp
  have 3: "resp_ok \<lparr>resp_ok = True, resp_json = Some duplicateResponse, resp_text = None\<rparr>" by simp
  have 4: "resp_json \<lparr>resp_ok = True, resp_json = Some duplicateResponse, resp_text = None\<rparr>
      = Some duplicateResponse" by simp
  from duplicates_removed [OF cat_encodes [THEN conjunct1] cat_encodes [THEN conjunct2]
      serving_first 3 4 1 2]
  have "findWord (serving duplicateResponse) (Some (JStr (str ''cat''))) =
     (Inr (Fulfilled (filter (\<lambda>l. l \<noteq> []) (firstOccurrences [arrow @ str ''A'', arrow @ str ''A'']))),
      [apiUrl (str ''cat'')])"
    by blast
  with 1 show ?thesis by (simp add: arrow_def)
qed

subsection \<open>C8: the text of the page\<close>

text \<open>
  Claim C8, as the script has it. Let the scrape reach a document on which no selector
  for meanings finds an element and which has no description, and let the text of its
  body, trimmed and with every run of white space collapsed to one space, be non-empty.
  Then the first line of the result is that text cut to its first 800 code units; it is
  the only line when no selector for examples finds a text, and otherwise it is followed by
  nothing but the header of the examples and texts of examples.
\<close>

theorem page_text_fallback:
  assumes "w \<noteq> []" and "encodeURIComponent (trim w) = Inr q"
    and "fst (apiStage env (apiUrl q) []) = Inl e"
    and "fetch env [apiUrl q] (pageUrl q) = Some resp" and "resp_ok resp"
    and "resp_text resp = Some html" and "parseFromString env html = Some doc"
    and "\<forall>sel \<in> set meaningSelectors. querySelectorAll doc sel = []"
    and "metaDescription doc = None"
    and "bodyTextContent doc = Some t" and "collapse (trim t) \<noteq> []"
  shows "\<exists>rest.
           findWord env (Some (JStr w)) =
             (Inr (Fulfilled (take 800 (collapse (trim t)) # rest)), [apiUrl q, pageUrl q]) \<and>
           length (take 800 (collapse (trim t))) \<le> 800 \<and>
           (collect doc exampleSelectors = [] \<longrightarrow> rest = []) \<and>
           set rest \<subseteq> insert examplesHeader (set (take 8 (collect doc exampleSelectors)))"
proof -
  let ?line = "take 800 (collapse (trim t))"
  let ?section = "if collect doc exampleSelectors \<noteq> []
              then examplesHeader # take 8 (collect doc exampleSelectors) else []"
  let ?rest = "filter (\<lambda>l. l \<noteq> [] \<and> l \<noteq> ?line) (firstOccurrences ?section)"
  from assms(11) have "?line \<noteq> []" by simp
  then have "cleanup (?line # ?section) = ?line # ?rest" by (rule cleanup_Cons)
  with htmlHandler_body [OF assms(8,9,10,11)] have "htmlHandler doc = ?line # ?rest" by simp
  with scrapeStage_document [OF assms(4,5,6,7)]
  have "fst (scrapeStage env (pageUrl q) [apiUrl q]) = Inr (?line # ?rest)" by simp
  with findWord_fallback [OF assms(1,2,3)]
  have "findWord env (Some (JStr w)) = (Inr (Fulfilled (?line # ?rest)), [apiUrl q, pageUrl q])"
    by simp
  moreover have "collect doc exampleSelectors = [] \<longrightarrow> ?rest = []" by simp
  moreover have "set ?rest \<subseteq> insert examplesHeader (set (take 8 (collect doc exampleSelectors)))"
    by auto
  ultimately show ?thesis by (intro exI [of _ ?rest]) simp
qed

theorem page_text_fallback_witness:
  "collapse (trim [0x20, 0x68, 0x69, 0x0A, 0x20, 0x68, 0x6F, 0x20]) = str ''hi ho'' \<and>
   findWord (scraping (plainPage [0x20, 0x68, 0x69, 0x0A, 0x20, 0x68, 0x6F, 0x20]))
       (Some (JStr (str ''cat''))) =
     (Inr (Fulfilled [str ''hi ho'']), [apiUrl (str ''cat''), pageUrl (str ''cat'')])"
proof -
  let ?t = "[0x20, 0x68, 0x69, 0x0A, 0x20, 0x68, 0x6F, 0x20] :: jsstring"
  let ?env = "scraping (plainPage ?t)"
  have t: "collapse (trim ?t) = str ''hi ho''"
    by (simp add: trim_def isWhiteSpace_def str_def)
  have 1: "fst (apiStage ?env (apiUrl (str ''cat'')) []) = Inl NetworkError"
    by (simp add: apiStage_def doFetch_def scraping_def)
  have 2: "fetch ?env [apiUrl (str ''cat'')] (pageUrl (str ''cat''))
      = Some \<lparr>resp_ok = True, resp_json = None, resp_text = Some []\<rparr>"
    by (simp add: scraping_def)
  have 3: "resp_ok \<lparr>resp_ok = True, resp_json = None, resp_text = Some []\<rparr>" by simp
  have 4: "resp_text \<lparr>resp_ok = True, resp_json = None, resp_text = Some []\<rparr> = Some []" by simp
  have 5: "parseFromString ?env [] = Some (plainPage ?t)" by (simp add: scraping_def)
  have 6: "\<forall>sel \<in> set meaningSelectors. querySelectorAll (plainPage ?t) sel = []"
    by (simp add: plainPage_def)
  have 7: "metaDescription (plainPage ?t) = None" by (simp add: plainPage_def)
  have 8: "bodyTextContent (plainPage ?t) = Some ?t" by (simp add: plainPage_def)
  have 9: "collapse (trim ?t) \<noteq> []" by (simp add: t str_def)
  have 10: "collect (plainPage ?t) exampleSelectors = []"
    by (rule collect_no_match) (simp add: plainPage_def)
  from page_text_fallback [OF cat_encodes [THEN conjunct1] cat_encodes [THEN conjunct2]
      1 2 3 4 5 6 7 8 9] 10 t
  show ?thesis by (auto simp: str_def)
qed

text \<open>
  Claim C8 as stated does not hold for a body without text: the guard on the text skips
  the line, the result has no line at all, and the wrapper answers \<^verbatim>\<open>No result found\<close>.
\<close>

theorem empty_page_has_no_line:
  "findWord (scraping (plainPage [])) (Some (JStr (str ''cat''))) =
     (Inr (Fulfilled []), [apiUrl (str ''cat''), pageUrl (str ''cat'')]) \<and>
   getDefinition (scraping (plainPage [])) (Some (JStr (str ''cat''))) =
     (Fulfilled (str ''No result found''), [apiUrl (str ''cat''), pageUrl (str ''cat'')])"
  by (simp add: getDefinition_def findWord_def fallback_def apiStage_def scrapeStage_def doFetch_def
      scraping_def plainPage_def htmlHandler_def collect_def meaningSelectors_def
      exampleSelectors_def withMeta_def bodyText_def cleanup_def fromSet_def
      str_def trim_def isWhiteSpace_def uriUnreserved_def Let_def)

subsection \<open>C9: at most two requests\<close>

text \<open>
  Claim C9: one invocation issues at most two requests, never the same address twice: none,
  or the request to the API alone when its stage delivers lines, or the request to the API
  followed by the request for the page when the stage of the API has failed.
\<close>

theorem at_most_two_requests:
  "length (snd (findWord env word)) \<le> 2 \<and>
   distinct (snd (findWord env word)) \<and>
   snd (getDefinition env word) = snd (findWord env word) \<and>
   (snd (findWord env word) = [] \<or>
    (\<exists>w q. word = Some (JStr w) \<and> encodeURIComponent (trim w) = Inr q \<and>
       ((\<exists>out. fst (apiStage env (apiUrl q) []) = Inr out \<and>
           snd (findWord env word) = [apiUrl q]) \<or>
        (\<exists>e. fst (apiStage env (apiUrl q) []) = Inl e \<and>
           snd (findWord env word) = [apiUrl q, pageUrl q]))))"
proof -
  have log: "snd (getDefinition env word) = snd (findWord env word)"
    by (cases "findWord env word")
       (auto simp: getDefinition_def split: sum.splits promise.splits)
  consider (none) "word = Some (JStr []) \<or> (\<forall>w. word \<noteq> Some (JStr w))"
    | (word) w where "word = Some (JStr w)" "w \<noteq> []"
    by blast
  then show ?thesis
  proof cases
    case none
    then have "findWord env word = (Inr (Fulfilled [noWord]), [])"
      by (rule findWord_not_string)
    with log show ?thesis by simp
  next
    case word
    show ?thesis
    proof (cases "encodeURIComponent (trim w)")
      case (Inl e)
      with word have "findWord env word = (Inl e, [])"
        by (simp add: findWord_throws)
      with log show ?thesis by simp
    next
      case (Inr q)
      show ?thesis
      proof (cases "fst (apiStage env (apiUrl q) [])")
        case (Inl e)
        from findWord_fallback [OF word(2) Inr Inl] word(1)
        have "snd (findWord env word) = [apiUrl q, pageUrl q]" by simp
        with log word Inr Inl show ?thesis by (simp add: apiUrl_neq_pageUrl)
      next
        case out: (Inr out)
        from findWord_success [OF word(2) Inr out] word(1)
        have "snd (findWord env word) = [apiUrl q]" by simp
        with log word Inr out show ?thesis by simp
      qed
    qed
  qed
qed

theorem at_most_two_requests_witness:
  "snd (findWord offline (Some (JStr (str ''cat'')))) = [apiUrl (str ''cat''), pageUrl (str ''cat'')] \<and>
   length (snd (findWord offline (Some (JStr (str ''cat''))))) \<le> 2 \<and>
   distinct (snd (findWord offline (Some (JStr (str ''cat'')))))"
proof -
  have "snd (findWord offline (Some (JStr (str ''cat'')))) = [apiUrl (str ''cat''), pageUrl (str ''cat'')]"
    by (simp add: eval_defs str_def Let_def)
  with at_most_two_requests [of offline "Some (JStr (str ''cat''))"] show ?thesis by simp
qed

subsection \<open>C10: examples with a missing text\<close>

text \<open>
  Claim C10: the callback of the examples appends the empty string for an entry with
  neither text, and the cleanup removes it; it appends the dash, a space and the second
  text for an entry with the second only, and the bare first text for an entry with the
  first only. No line of any result of \<open>findWord\<close> is empty.
\<close>

theorem malformed_examples:
  "(\<not> truthy (map_of kvs (str ''first'')) \<and> \<not> truthy (map_of kvs (str ''second'')) \<longrightarrow>
      exampleCallback (JObj kvs) out = Inr (out @ [[]]) \<and> cleanup (out @ [[]]) = cleanup out) \<and>
   (\<not> truthy (map_of kvs (str ''first'')) \<and> map_of kvs (str ''second'') = Some (JStr b) \<and> b \<noteq> [] \<longrightarrow>
      exampleCallback (JObj kvs) out = Inr (out @ [dash @ b])) \<and>
   (map_of kvs (str ''first'') = Some (JStr a) \<and> a \<noteq> [] \<and> \<not> truthy (map_of kvs (str ''second'')) \<longrightarrow>
      exampleCallback (JObj kvs) out = Inr (out @ [a])) \<and>
   (fst (findWord env word) = Inr (Fulfilled lines) \<longrightarrow> [] \<notin> set lines)"
proof -
  have "cleanup (out @ [[]]) = cleanup out"
    by (simp add: cleanup_eq firstOccurrences_append)
  then show ?thesis
    using exampleLine_neither [of kvs] exampleLine_second_only [of kvs b]
      exampleLine_first_only [of kvs a] findWord_no_empty_line [of env word lines]
    by (simp add: exampleCallback_def)
qed

theorem malformed_examples_witness:
  "findWord (serving malformedResponse) (Some (JStr (str ''cat''))) =
     (Inr (Fulfilled [examplesHeader, dash @ str ''meo'', str ''cat'']), [apiUrl (str ''cat'')]) \<and>
   extractLines malformedResponse = Inr [examplesHeader, [], dash @ str ''meo'', str ''cat''] \<and>
   exampleCallback (JObj []) [examplesHeader] = Inr [examplesHeader, []] \<and>
   [] \<notin> set [examplesHeader, dash @ str ''meo'', str ''cat'']"
proof -
  have 1: "findWord (serving malformedResponse) (Some (JStr (str ''cat''))) =
     (Inr (Fulfilled [examplesHeader, dash @ str ''meo'', str ''cat'']), [apiUrl (str ''cat'')])"
    by (simp add: findWord_def apiStage_def doFetch_def serving_def jsonHandler_def json_defs
        malformedResponse_def str_def trim_def isWhiteSpace_def uriUnreserved_def Let_def
        cleanup_def fromSet_def setAdd_def examplesHeader_def dash_def)
  have 2: "extractLines malformedResponse = Inr [examplesHeader, [], dash @ str ''meo'', str ''cat'']"
    by (simp add: json_defs malformedResponse_def str_def dash_def)
  have 3: "\<not> truthy (map_of [] (str ''first''))" "\<not> truthy (map_of [] (str ''second''))"
    by simp_all
  from malformed_examples [of "[]" "[examplesHeader]" "str ''meo''" "str ''cat''"
      "serving malformedResponse" "Some (JStr (str ''cat''))"
      "[examplesHeader, dash @ str ''meo'', str ''cat'']"] 1 3
  have "exampleCallback (JObj []) [examplesHeader] = Inr [examplesHeader, []]"
    "[] \<notin> set [examplesHeader, dash @ str ''meo'', str ''cat'']"
    by simp_all
  with 1 2 show ?thesis by simp
qed

end
